theory Spec2Isabelle
  imports Main "HOL-Library.Word"
begin

unbundle bit_operations_syntax

section \<open>The enen demo: puzzle state machines, trial generation, frames\<close>

text \<open>
  A shallow embedding of \<^verbatim>\<open>include/puzzles.hpp\<close>, \<^verbatim>\<open>include/history.hpp\<close>,
  \<^verbatim>\<open>src/renderer.cpp\<close> and \<^verbatim>\<open>include/frame.hpp\<close>. Member functions that mutate
  their object take the object and return the new one; a member function that also returns a
  value returns a pair. \<^verbatim>\<open>uint32_t\<close> is \<open>32 word\<close>, \<^verbatim>\<open>int16_t\<close> is \<open>16 word\<close> read by \<open>sint\<close>.
  The counters of the validators are C++ \<^verbatim>\<open>int\<close>: 32-bit words read as two's complement by
  \<open>sint\<close>, with the wrap-around of the compiled code on overflow (C++ itself leaves signed
  overflow undefined). The coordinates of the drawing functions are \<^verbatim>\<open>int\<close> too; their
  only arithmetic is \<^verbatim>\<open>x + i\<close> under the loop test \<^verbatim>\<open>x + i < WIDTH\<close> with \<open>i \<ge> 0\<close>, which
  cannot overflow, so they are taken as integers.
\<close>

subsection \<open>RNG (xorshift32)\<close>

record RNG =
  state :: "32 word"

text \<open>\<^verbatim>\<open>RNG(uint32_t seed = 12345) : state(seed) {}\<close>: the constructor stores the seed
  it is given; the default argument is used only when no argument is passed.\<close>

definition RNG_ctor :: "32 word \<Rightarrow> RNG" where
  "RNG_ctor seed = \<lparr>state = seed\<rparr>"

definition RNG_default :: RNG where
  "RNG_default = RNG_ctor 12345"

text \<open>The body of \<^verbatim>\<open>next()\<close>:
  \<^verbatim>\<open>state ^= state << 13; state ^= state >> 17; state ^= state << 5; return state;\<close>
  on 32-bit unsigned values, where a left shift drops the bits pushed past bit 31.\<close>

definition xorshift32 :: "32 word \<Rightarrow> 32 word" where
  "xorshift32 s0 =
     (let s1 = s0 XOR push_bit 13 s0;
          s2 = s1 XOR drop_bit 17 s1;
          s3 = s2 XOR push_bit 5 s2
      in s3)"

definition rng_next :: "RNG \<Rightarrow> 32 word \<times> RNG" where
  "rng_next r = (let s = xorshift32 (state r) in (s, r\<lparr>state := s\<rparr>))"

text \<open>\<open>draws n r\<close>: the values of \<open>n\<close> successive calls of \<^verbatim>\<open>next()\<close> on one instance.\<close>

fun draws :: "nat \<Rightarrow> RNG \<Rightarrow> 32 word list" where
  "draws 0 r = []"
| "draws (Suc n) r = (let (v, r') = rng_next r in v # draws n r')"




subsection \<open>Puzzle 1: MushroomTrial\<close>

text \<open>The fields are \<^verbatim>\<open>int16_t\<close>: 16-bit words read as two's complement by \<open>sint\<close>.\<close>

record MushroomTrial =
  sizeA :: "16 word"
  sizeB :: "16 word"
  colorA :: "16 word"
  colorB :: "16 word"
  correctIsA :: bool

text \<open>The conversion of a \<^verbatim>\<open>uint32_t\<close> value to \<^verbatim>\<open>int16_t\<close> on assignment keeps the
  low 16 bits.\<close>

definition to_int16 :: "32 word \<Rightarrow> 16 word" where
  "to_int16 w = ucast w"

text \<open>\<^verbatim>\<open>while (std::abs(t.sizeA - t.sizeB) < 20) { t.sizeB = 32 + rng.next() % 96; }\<close>.
  The loop has no bound, so it is a partial function: \<open>None\<close> is the loop that never
  ends. The operands of the subtraction are promoted to \<^verbatim>\<open>int\<close>.\<close>

partial_function (option) redraw_sizeB :: "16 word \<Rightarrow> 16 word \<Rightarrow> RNG \<Rightarrow> (16 word \<times> RNG) option" where
  "redraw_sizeB a b r =
     (if \<bar>sint a - sint b\<bar> < 20
      then (let (v, r') = rng_next r in redraw_sizeB a (to_int16 (32 + v mod 96)) r')
      else Some (b, r))"

declare redraw_sizeB.simps [code]

definition generateAdversarial :: "RNG \<Rightarrow> MushroomTrial \<times> RNG" where
  "generateAdversarial r =
     (let (v1, r1) = rng_next r;
          (v2, r2) = rng_next r1;
          (v3, r3) = rng_next r2;
          (v4, r4) = rng_next r3
      in (\<lparr>sizeA = to_int16 (90 + v1 mod 38), sizeB = to_int16 (32 + v2 mod 38),
           colorA = to_int16 (10 + v3 mod 30), colorB = to_int16 (90 + v4 mod 38),
           correctIsA = True\<rparr>, r4))"

text \<open>\<^verbatim>\<open>MushroomTrial::generate(rng, adversarial)\<close>: the trial and the generator
  afterwards, or \<open>None\<close> when the re-draw loop does not end.\<close>

definition generate :: "RNG \<Rightarrow> bool \<Rightarrow> (MushroomTrial \<times> RNG) option" where
  "generate r adversarial =
     (if adversarial then Some (generateAdversarial r)
      else
        (let (v1, r1) = rng_next r;
             a = to_int16 (32 + v1 mod 96);
             (v2, r2) = rng_next r1;
             b0 = to_int16 (32 + v2 mod 96)
         in case redraw_sizeB a b0 r2 of
              None \<Rightarrow> None
            | Some (b, r3) \<Rightarrow>
                (let (v3, r4) = rng_next r3;
                     (v4, r5) = rng_next r4
                 in Some (\<lparr>sizeA = a, sizeB = b, colorA = to_int16 (v3 mod 128),
                            colorB = to_int16 (v4 mod 128),
                            correctIsA = (sint a > sint b)\<rparr>, r5))))"

subsection \<open>Puzzle 4: SequencePuzzle\<close>

datatype SequenceState = START | PRESSED_A | SUCCESS | FAIL

record SequencePuzzle =
  seq_state :: SequenceState

definition SequencePuzzle_init :: SequencePuzzle where
  "SequencePuzzle_init = \<lparr>seq_state = START\<rparr>"

text \<open>\<^verbatim>\<open>bool pressButton(int button)\<close>, 0 = A, 1 = B. The returned pair is the
  return value and the puzzle afterwards.\<close>

definition pressButton :: "SequencePuzzle \<Rightarrow> int \<Rightarrow> bool \<times> SequencePuzzle" where
  "pressButton p button =
     (case seq_state p of
        START \<Rightarrow>
          (if button = 0 then (True, p\<lparr>seq_state := PRESSED_A\<rparr>)
           else (False, p\<lparr>seq_state := FAIL\<rparr>))
      | PRESSED_A \<Rightarrow>
          (if button = 1 then (True, p\<lparr>seq_state := SUCCESS\<rparr>)
           else (False, p\<lparr>seq_state := FAIL\<rparr>))
      | _ \<Rightarrow> (False, p))"

definition seq_reset :: "SequencePuzzle \<Rightarrow> SequencePuzzle" where
  "seq_reset p = p\<lparr>seq_state := START\<rparr>"

subsection \<open>LearningValidator\<close>

record LearningValidator =
  failures :: "32 word"
  successes :: "32 word"
  total_trials :: "32 word"

definition lv_reset :: LearningValidator where
  "lv_reset = \<lparr>failures = 0, successes = 0, total_trials = 0\<rparr>"

definition lv_recordOutcome :: "LearningValidator \<Rightarrow> bool \<Rightarrow> LearningValidator" where
  "lv_recordOutcome v success =
     (let v1 = v\<lparr>total_trials := total_trials v + 1\<rparr>
      in if success then v1\<lparr>successes := successes v1 + 1\<rparr>
         else (v1\<lparr>failures := failures v1 + 1\<rparr>)\<lparr>successes := 0\<rparr>)"

definition requiredSuccesses :: "LearningValidator \<Rightarrow> 32 word" where
  "requiredSuccesses v = 4"

definition hasLearned :: "LearningValidator \<Rightarrow> bool" where
  "hasLearned v \<longleftrightarrow> sint (total_trials v) \<ge> 5 \<and> sint (successes v) \<ge> sint (requiredSuccesses v)"

text \<open>A sequence of \<^verbatim>\<open>recordOutcome\<close> calls, oldest first.\<close>

fun lv_run :: "LearningValidator \<Rightarrow> bool list \<Rightarrow> LearningValidator" where
  "lv_run v [] = v"
| "lv_run v (b # bs) = lv_run (lv_recordOutcome v b) bs"

text \<open>The length of the run of successes at the end of an outcome sequence, and the
  number of failures in it.\<close>

definition streak :: "bool list \<Rightarrow> nat" where
  "streak bs = length (takeWhile (\<lambda>b. b) (rev bs))"

definition misses :: "bool list \<Rightarrow> nat" where
  "misses bs = length (filter (\<lambda>b. \<not> b) bs)"

subsection \<open>GauntletState\<close>

record GauntletState =
  warmup_completed :: "32 word"
  scored_completed :: "32 word"
  correct :: "32 word"

definition WARMUP_TRIALS :: "32 word" where "WARMUP_TRIALS = 10"
definition SCORED_TRIALS :: "32 word" where "SCORED_TRIALS = 20"

definition g_reset :: GauntletState where
  "g_reset = \<lparr>warmup_completed = 0, scored_completed = 0, correct = 0\<rparr>"

definition inWarmup :: "GauntletState \<Rightarrow> bool" where
  "inWarmup g \<longleftrightarrow> sint (warmup_completed g) < sint WARMUP_TRIALS"

definition g_recordOutcome :: "GauntletState \<Rightarrow> bool \<Rightarrow> GauntletState" where
  "g_recordOutcome g success =
     (if inWarmup g then g\<lparr>warmup_completed := warmup_completed g + 1\<rparr>
      else (let g1 = g\<lparr>scored_completed := scored_completed g + 1\<rparr>
            in if success then g1\<lparr>correct := correct g1 + 1\<rparr> else g1))"

definition isComplete :: "GauntletState \<Rightarrow> bool" where
  "isComplete g \<longleftrightarrow> sint (scored_completed g) \<ge> sint SCORED_TRIALS"

text \<open>C++ integer division truncates towards zero; \<open>int_div\<close> is \<^verbatim>\<open>/\<close> on two
  \<^verbatim>\<open>int\<close> values. The one quotient outside the range of \<^verbatim>\<open>int\<close>, that of
  \<open>-2^31\<close> by \<open>-1\<close>, wraps here; a division by zero does not arise, since
  \<^verbatim>\<open>scorePercent\<close> tests for it first.\<close>

definition c_div :: "int \<Rightarrow> int \<Rightarrow> int" where
  "c_div a b = sgn a * sgn b * (\<bar>a\<bar> div \<bar>b\<bar>)"

definition int_div :: "32 word \<Rightarrow> 32 word \<Rightarrow> 32 word" where
  "int_div a b = word_of_int (c_div (sint a) (sint b))"

text \<open>\<^verbatim>\<open>if (scored_completed == 0) return 0; return (correct * 100) / scored_completed;\<close>
  The product is a 32-bit product.\<close>

definition scorePercent :: "GauntletState \<Rightarrow> 32 word" where
  "scorePercent g =
     (if scored_completed g = 0 then 0 else int_div (correct g * 100) (scored_completed g))"

text \<open>A sequence of \<^verbatim>\<open>recordOutcome\<close> calls, oldest first.\<close>

fun g_run :: "GauntletState \<Rightarrow> bool list \<Rightarrow> GauntletState" where
  "g_run g [] = g"
| "g_run g (b # bs) = g_run (g_recordOutcome g b) bs"

text \<open>The number of successes in an outcome list.\<close>

definition hits :: "bool list \<Rightarrow> nat" where
  "hits bs = length (filter (\<lambda>b. b) bs)"

text \<open>The drivers record an outcome only while the gauntlet is not complete
  (\<^verbatim>\<open>while (!gauntlet.isComplete()) { ... gauntlet.recordOutcome(correct); ... }\<close> in the
  recording program, \<^verbatim>\<open>if (state.gauntlet.isComplete()) return;\<close> before each trial in the
  interactive one); \<^verbatim>\<open>recordOutcome\<close> itself has no such test. The list holds the outcome
  of each trial the network would produce, oldest first.\<close>

fun gauntlet_loop :: "GauntletState \<Rightarrow> bool list \<Rightarrow> GauntletState" where
  "gauntlet_loop g [] = g"
| "gauntlet_loop g (b # bs) =
     (if isComplete g then g else gauntlet_loop (g_recordOutcome g b) bs)"

text \<open>The spec's reading of the score: the integer percentage of successes among the
  scored outcomes, 0 when there are none.\<close>

definition percent_of :: "bool list \<Rightarrow> int" where
  "percent_of ss = (if ss = [] then 0 else (int (hits ss) * 100) div int (length ss))"

subsection \<open>TrialHistory and History\<close>

record HistoryEntry =
  trialNum :: int
  correct_flag :: bool
  summary :: string

definition MAX_ENTRIES :: nat where "MAX_ENTRIES = 4"

text \<open>\<^verbatim>\<open>while (entries_.size() > MAX_ENTRIES) entries_.erase(entries_.begin());\<close>\<close>

function evict :: "HistoryEntry list \<Rightarrow> HistoryEntry list" where
  "evict es = (if length es > MAX_ENTRIES then evict (tl es) else es)"
  by pat_completeness auto
termination
  by (relation "measure length") (auto simp: MAX_ENTRIES_def)

declare evict.simps [simp del]

text \<open>\<^verbatim>\<open>History::add\<close> of history.hpp and \<^verbatim>\<open>TrialHistory::add\<close> of renderer.cpp have
  the same body.\<close>

definition history_add :: "HistoryEntry list \<Rightarrow> int \<Rightarrow> bool \<Rightarrow> string \<Rightarrow> HistoryEntry list" where
  "history_add es n c s = evict (es @ [\<lparr>trialNum = n, correct_flag = c, summary = s\<rparr>])"

definition history_clear :: "HistoryEntry list \<Rightarrow> HistoryEntry list" where
  "history_clear es = []"

datatype history_op = Add int bool string | Clear

fun history_step :: "HistoryEntry list \<Rightarrow> history_op \<Rightarrow> HistoryEntry list" where
  "history_step es (Add n c s) = history_add es n c s"
| "history_step es Clear = history_clear es"

fun history_run :: "HistoryEntry list \<Rightarrow> history_op list \<Rightarrow> HistoryEntry list" where
  "history_run es [] = es"
| "history_run es (opn # ops) = history_run (history_step es opn) ops"

subsection \<open>TextBuffer\<close>

definition WIDTH :: int where "WIDTH = 80"
definition HEIGHT :: int where "HEIGHT = 24"

text \<open>The terminator of a C string.\<close>

abbreviation NUL :: char where "NUL \<equiv> CHR 0x00"

text \<open>\<^verbatim>\<open>char buffer_[HEIGHT][WIDTH + 1]\<close>: a list of rows, each a list of cells.\<close>

type_synonym TextBuffer = "char list list"

definition buffer_ok :: "TextBuffer \<Rightarrow> bool" where
  "buffer_ok buf \<longleftrightarrow>
     int (length buf) = HEIGHT \<and> list_all (\<lambda>row. int (length row) = WIDTH + 1) buf"

text \<open>A store through \<^verbatim>\<open>buffer_[y][x] = c\<close>. C++ does not check the indices; a store
  outside the array is the fault \<open>OutOfBounds\<close> here, so that the checks of the drawing
  functions have something to prevent.\<close>

datatype fault = OutOfBounds

definition poke :: "TextBuffer \<Rightarrow> int \<Rightarrow> int \<Rightarrow> char \<Rightarrow> fault + TextBuffer" where
  "poke buf y x c =
     (if 0 \<le> y \<and> y < HEIGHT \<and> 0 \<le> x \<and> x < WIDTH + 1
      then Inr (buf[nat y := (buf ! nat y)[nat x := c]])
      else Inl OutOfBounds)"

definition clear :: TextBuffer where
  "clear = replicate (nat HEIGHT) (replicate (nat WIDTH) CHR '' '' @ [NUL])"

text \<open>\<^verbatim>\<open>std::strlen\<close>: a C string ends at its first NUL.\<close>

definition strlen :: "string \<Rightarrow> nat" where
  "strlen str = length (takeWhile (\<lambda>c. c \<noteq> NUL) str)"

function putString_loop :: "TextBuffer \<Rightarrow> int \<Rightarrow> int \<Rightarrow> string \<Rightarrow> nat \<Rightarrow> nat \<Rightarrow> fault + TextBuffer" where
  "putString_loop buf x y str len i =
     (if i < len \<and> x + int i < WIDTH then
        (if x + int i \<ge> 0 then
           (case poke buf y (x + int i) (str ! i) of
              Inl e \<Rightarrow> Inl e
            | Inr buf' \<Rightarrow> putString_loop buf' x y str len (Suc i))
         else putString_loop buf x y str len (Suc i))
      else Inr buf)"
  by pat_completeness auto
termination
  by (relation "measure (\<lambda>(buf, x, y, str, len, i). len - i)") auto

declare putString_loop.simps [simp del]

definition putString :: "TextBuffer \<Rightarrow> int \<Rightarrow> int \<Rightarrow> string \<Rightarrow> fault + TextBuffer" where
  "putString buf x y str =
     (if y < 0 \<or> y \<ge> HEIGHT then Inr buf
      else putString_loop buf x y str (strlen str) 0)"

definition putChar :: "TextBuffer \<Rightarrow> int \<Rightarrow> int \<Rightarrow> char \<Rightarrow> fault + TextBuffer" where
  "putChar buf x y c =
     (if x \<ge> 0 \<and> x < WIDTH \<and> y \<ge> 0 \<and> y < HEIGHT then poke buf y x c else Inr buf)"

function drawHLine_loop :: "TextBuffer \<Rightarrow> int \<Rightarrow> int \<Rightarrow> int \<Rightarrow> char \<Rightarrow> int \<Rightarrow> fault + TextBuffer" where
  "drawHLine_loop buf x y len c i =
     (if i < len \<and> x + i < WIDTH then
        (if y \<ge> 0 \<and> y < HEIGHT \<and> x + i \<ge> 0 then
           (case poke buf y (x + i) c of
              Inl e \<Rightarrow> Inl e
            | Inr buf' \<Rightarrow> drawHLine_loop buf' x y len c (i + 1))
         else drawHLine_loop buf x y len c (i + 1))
      else Inr buf)"
  by pat_completeness auto
termination
  by (relation "measure (\<lambda>(buf, x, y, len, c, i). nat (len - i))") auto

declare drawHLine_loop.simps [simp del]

definition drawHLine :: "TextBuffer \<Rightarrow> int \<Rightarrow> int \<Rightarrow> int \<Rightarrow> char \<Rightarrow> fault + TextBuffer" where
  "drawHLine buf x y len c = drawHLine_loop buf x y len c 0"

text \<open>\<^verbatim>\<open>line(y)\<close> returns the row as a C string, the empty string outside the grid.\<close>

definition line :: "TextBuffer \<Rightarrow> int \<Rightarrow> string" where
  "line buf y = (if y \<ge> 0 \<and> y < HEIGHT then takeWhile (\<lambda>c. c \<noteq> NUL) (buf ! nat y) else [])"

text \<open>What a row looks like after a run of characters was laid over it: the characters
  \<open>str ! i\<close> for \<open>from \<le> i < len\<close> land at column \<open>x + i\<close> when that column is in
  \<open>[0, WIDTH)\<close>; every other cell keeps its content.\<close>

definition overlay :: "char list \<Rightarrow> int \<Rightarrow> (nat \<Rightarrow> char) \<Rightarrow> int \<Rightarrow> int \<Rightarrow> char list" where
  "overlay row x src from len =
     map (\<lambda>k. if x + from \<le> int k \<and> int k < x + len \<and> int k < WIDTH
               then src (nat (int k - x)) else row ! k) [0..<length row]"

subsection \<open>FrameWriter\<close>

abbreviation ESC :: char where "ESC \<equiv> CHR 0x1B"
abbreviation LF :: char where "LF \<equiv> CHR 0x0A"
abbreviation CR :: char where "CR \<equiv> CHR 0x0D"
abbreviation TAB :: char where "TAB \<equiv> CHR 0x09"
abbreviation DQUOTE :: char where "DQUOTE \<equiv> CHR 0x22"
abbreviation BSLASH :: char where "BSLASH \<equiv> CHR 0x5C"

text \<open>\<^verbatim>\<open>ansi::INIT\<close> and \<^verbatim>\<open>ansi::CLEAR\<close>.\<close>

definition ansi_INIT :: string where
  "ansi_INIT = ESC # ''[2J'' @ ESC # ''[H'' @ ESC # ''[22m'' @
               ESC # ''[38;2;242;178;51m'' @ ESC # ''[48;2;12;12;10m''"

definition ansi_CLEAR :: string where
  "ansi_CLEAR = ESC # ''[2J'' @ ESC # ''[H''"

text \<open>The writer's \<^verbatim>\<open>firstFrame_\<close> flag. Its \<^verbatim>\<open>time_\<close> field is a \<^verbatim>\<open>double\<close> that only
  feeds the timestamp of the printed event; it is left out.\<close>

record FrameWriter =
  firstFrame :: bool

definition FrameWriter_init :: FrameWriter where
  "FrameWriter_init = \<lparr>firstFrame = True\<rparr>"

definition buildFrameContent :: "FrameWriter \<Rightarrow> TextBuffer \<Rightarrow> string \<times> FrameWriter" where
  "buildFrameContent w buf =
     (let result0 = (if firstFrame w then ansi_INIT else ansi_CLEAR);
          w' = w\<lparr>firstFrame := False\<rparr>
      in (result0 @ concat (map (\<lambda>y. line buf (int y) @ [LF]) [0..<nat HEIGHT]), w'))"

text \<open>The value of a \<^verbatim>\<open>char\<close> in a comparison with an \<^verbatim>\<open>int\<close>. Whether plain
  \<^verbatim>\<open>char\<close> is signed is the implementation's choice; \<open>signed_char\<close> says which.\<close>

definition char_value :: "bool \<Rightarrow> char \<Rightarrow> int" where
  "char_value signed_char c =
     (if signed_char \<and> (of_char c :: nat) \<ge> 128 then int (of_char c) - 256 else int (of_char c))"

text \<open>\<^verbatim>\<open>snprintf(buf, sizeof(buf), "\\u%04x", static_cast<unsigned char>(c))\<close>: four
  lower-case hexadecimal digits.\<close>

definition hexdigit :: "nat \<Rightarrow> char" where
  "hexdigit d = ''0123456789abcdef'' ! (d mod 16)"

definition hex4 :: "nat \<Rightarrow> string" where
  "hex4 v = [hexdigit (v div 4096), hexdigit (v div 256), hexdigit (v div 16), hexdigit v]"

definition escape_char :: "bool \<Rightarrow> char \<Rightarrow> string" where
  "escape_char signed_char c =
     (if c = DQUOTE then [BSLASH, DQUOTE]
      else if c = BSLASH then [BSLASH, BSLASH]
      else if c = LF then [BSLASH, CHR ''r'', BSLASH, CHR ''n'']
      else if c = CR then []
      else if c = TAB then [BSLASH, CHR ''t'']
      else if char_value signed_char c \<ge> 32 \<and> char_value signed_char c < 127 then [c]
      else if char_value signed_char c < 32 then BSLASH # CHR ''u'' # hex4 (of_char c)
      else [])"

definition escapeForJson :: "bool \<Rightarrow> string \<Rightarrow> string" where
  "escapeForJson signed_char content = concat (map (escape_char signed_char) content)"

text \<open>\<^verbatim>\<open>outputRawFrame\<close> prints the event \<^verbatim>\<open>[time, "o", "escaped"]\<close>; the result here is
  the escaped text.\<close>

definition outputRawFrame :: "bool \<Rightarrow> FrameWriter \<Rightarrow> string \<Rightarrow> string \<times> FrameWriter" where
  "outputRawFrame signed_char w content = (escapeForJson signed_char content, w)"

definition outputFrame :: "bool \<Rightarrow> FrameWriter \<Rightarrow> TextBuffer \<Rightarrow> string \<times> FrameWriter" where
  "outputFrame signed_char w buf =
     (let (content, w') = buildFrameContent w buf
      in outputRawFrame signed_char w' content)"

text \<open>Modelled from the spec: the reader's side of the recording format. The repository
  holds no decoder; \<open>unescapeJson\<close> undoes the escapes of a JSON string, which is how a player
  of the event stream reads \<^verbatim>\<open>escaped_text\<close>: a backslash before a quote or a backslash
  gives that character, \<^verbatim>\<open>\n\<close>, \<^verbatim>\<open>\r\<close>, \<^verbatim>\<open>\t\<close> give newline, carriage return and tab,
  \<^verbatim>\<open>\u\<close> with four hexadecimal digits gives the byte of that value.\<close>

definition hexval :: "char \<Rightarrow> nat" where
  "hexval c =
     (let n = (of_char c :: nat)
      in if 48 \<le> n \<and> n \<le> 57 then n - 48
         else if 97 \<le> n \<and> n \<le> 102 then n - 87
         else if 65 \<le> n \<and> n \<le> 70 then n - 55
         else 0)"

fun unescapeJson :: "string \<Rightarrow> string" where
  "unescapeJson [] = []"
| "unescapeJson [c] = [c]"
| "unescapeJson (c # d # cs) =
     (if c \<noteq> BSLASH then c # unescapeJson (d # cs)
      else if d = CHR ''n'' then LF # unescapeJson cs
      else if d = CHR ''r'' then CR # unescapeJson cs
      else if d = CHR ''t'' then TAB # unescapeJson cs
      else if d = CHR ''b'' then CHR 0x08 # unescapeJson cs
      else if d = CHR ''f'' then CHR 0x0C # unescapeJson cs
      else if d = CHR ''u'' then
        (case cs of
           h1 # h2 # h3 # h4 # rest \<Rightarrow>
             char_of (hexval h1 * 4096 + hexval h2 * 256 + hexval h3 * 16 + hexval h4)
               # unescapeJson rest
         | _ \<Rightarrow> [])
      else d # unescapeJson cs)"

text \<open>Modelled from the spec: "the grid's row content joined by real newlines".\<close>

definition join_lines :: "string list \<Rightarrow> string" where
  "join_lines ls = (case ls of [] \<Rightarrow> [] | l # rest \<Rightarrow> l @ concat (map (\<lambda>m. LF # m) rest))"

definition grid_rows :: "TextBuffer \<Rightarrow> string list" where
  "grid_rows buf = map (\<lambda>y. line buf (int y)) [0..<nat HEIGHT]"

text \<open>What unescaping the escaped form of one character gives back.\<close>

definition echo :: "char \<Rightarrow> string" where
  "echo c = (if c = LF then [CR, LF] else if c = CR \<or> c = CHR 0x7F then [] else [c])"

definition ascii :: "char \<Rightarrow> bool" where
  "ascii c \<longleftrightarrow> (of_char c :: nat) < 128"

definition printable :: "char \<Rightarrow> bool" where
  "printable c \<longleftrightarrow> 32 \<le> (of_char c :: nat) \<and> (of_char c :: nat) < 127"

text \<open>Every character of every row is printable ASCII, 0x20 to 0x7E.\<close>

definition printable_grid :: "TextBuffer \<Rightarrow> bool" where
  "printable_grid buf \<longleftrightarrow> list_all (list_all printable) (grid_rows buf)"

section \<open>Properties\<close>

subsection \<open>SequencePuzzle\<close>

text \<open>
  Claim C6. The transition table of \<^verbatim>\<open>pressButton\<close>: from START, A (0) leads to
  PRESSED_A and returns true, B (1) leads to FAIL and returns false; from PRESSED_A, B leads
  to SUCCESS and returns true, A leads to FAIL and returns false; in SUCCESS and in FAIL every
  press returns false and leaves the state as it is.
\<close>

theorem pressButton_table:
  "pressButton \<lparr>seq_state = START\<rparr> 0 = (True, \<lparr>seq_state = PRESSED_A\<rparr>) \<and>
   pressButton \<lparr>seq_state = START\<rparr> 1 = (False, \<lparr>seq_state = FAIL\<rparr>) \<and>
   pressButton \<lparr>seq_state = PRESSED_A\<rparr> 1 = (True, \<lparr>seq_state = SUCCESS\<rparr>) \<and>
   pressButton \<lparr>seq_state = PRESSED_A\<rparr> 0 = (False, \<lparr>seq_state = FAIL\<rparr>) \<and>
   pressButton \<lparr>seq_state = SUCCESS\<rparr> button = (False, \<lparr>seq_state = SUCCESS\<rparr>) \<and>
   pressButton \<lparr>seq_state = FAIL\<rparr> button = (False, \<lparr>seq_state = FAIL\<rparr>)"
  by (simp add: pressButton_def)

subsection \<open>LearningValidator\<close>

lemma sint_of_nat_small: "n < 2 ^ 31 \<Longrightarrow> sint (word_of_nat n :: 32 word) = int n"
proof -
  assume n: "n < 2 ^ 31"
  have "sint (word_of_nat n :: 32 word) = signed_take_bit 31 (int n)"
    by (simp add: signed_of_nat)
  also have "\<dots> = int n"
  proof (rule signed_take_bit_int_eq_self)
    have "(- (2 ^ 31) :: int) \<le> 0" by simp
    also have "0 \<le> int n" by simp
    finally show "- (2 ^ 31) \<le> int n" .
    from n have "int n < int (2 ^ 31)" by (simp only: of_nat_less_iff)
    then show "int n < 2 ^ 31" by simp
  qed
  finally show ?thesis .
qed

lemma sint_of_int_small: "- (2 ^ 31) \<le> k \<Longrightarrow> k < 2 ^ 31 \<Longrightarrow> sint (word_of_int k :: 32 word) = k"
  by (simp add: signed_of_int signed_take_bit_int_eq_self)

lemma lv_run_snoc: "lv_run v (bs @ [b]) = lv_recordOutcome (lv_run v bs) b"
  by (induction bs arbitrary: v) auto

lemma lv_run_closed:
  "lv_run lv_reset bs =
     \<lparr>failures = word_of_nat (misses bs), successes = word_of_nat (streak bs),
      total_trials = word_of_nat (length bs)\<rparr>"
  by (induction bs rule: rev_induct)
     (auto simp: lv_run_snoc lv_reset_def lv_recordOutcome_def Let_def streak_def misses_def)

lemma streak_le: "streak bs \<le> length bs"
  unfolding streak_def using length_takeWhile_le [of "\<lambda>b. b" "rev bs"] by simp

text \<open>With \<open>2^31\<close> calls \<^verbatim>\<open>total_trials\<close> has wrapped to \<open>-2^31\<close> and
  \<^verbatim>\<open>hasLearned()\<close> is false whatever the outcomes were.\<close>

lemma validator_wraps:
  "length bs = 2147483648 \<Longrightarrow>
   sint (total_trials (lv_run lv_reset bs)) = - 2147483648 \<and> \<not> hasLearned (lv_run lv_reset bs)"
  by (simp add: lv_run_closed hasLearned_def)

text \<open>
  Claim C2. After any sequence of \<^verbatim>\<open>recordOutcome\<close> calls from the reset state,
  \<^verbatim>\<open>hasLearned()\<close> holds exactly when \<^verbatim>\<open>total_trials >= 5\<close> and \<^verbatim>\<open>successes >= 4\<close>.
  The counters are the number of calls and the length of the run of successes at the end, as
  32-bit values, and as plain numbers for fewer than \<open>2^31\<close> calls. Recording one failure
  sets \<^verbatim>\<open>successes\<close> to 0 and still increments \<^verbatim>\<open>total_trials\<close>, so the validator has not
  learned right after a failure.
\<close>

theorem validator_learned_and_failure_reset:
  "(hasLearned (lv_run lv_reset bs) \<longleftrightarrow>
      sint (total_trials (lv_run lv_reset bs)) \<ge> 5 \<and> sint (successes (lv_run lv_reset bs)) \<ge> 4) \<and>
   total_trials (lv_run lv_reset bs) = word_of_nat (length bs) \<and>
   successes (lv_run lv_reset bs) = word_of_nat (streak bs) \<and>
   successes (lv_recordOutcome (lv_run lv_reset bs) False) = 0 \<and>
   total_trials (lv_recordOutcome (lv_run lv_reset bs) False) = total_trials (lv_run lv_reset bs) + 1 \<and>
   total_trials (lv_recordOutcome (lv_run lv_reset bs) False) = word_of_nat (Suc (length bs)) \<and>
   \<not> hasLearned (lv_recordOutcome (lv_run lv_reset bs) False) \<and>
   (length bs < 2 ^ 31 \<longrightarrow>
      sint (total_trials (lv_run lv_reset bs)) = int (length bs) \<and>
      sint (successes (lv_run lv_reset bs)) = int (streak bs) \<and>
      (hasLearned (lv_run lv_reset bs) \<longleftrightarrow> 5 \<le> length bs \<and> 4 \<le> streak bs))"
proof -
  let ?v = "lv_run lv_reset bs"
  have a: "hasLearned ?v \<longleftrightarrow> sint (total_trials ?v) \<ge> 5 \<and> sint (successes ?v) \<ge> 4"
    by (simp add: hasLearned_def requiredSuccesses_def)
  have b: "total_trials ?v = word_of_nat (length bs)" "successes ?v = word_of_nat (streak bs)"
    by (simp_all add: lv_run_closed)
  have c: "successes (lv_recordOutcome ?v False) = 0"
    "total_trials (lv_recordOutcome ?v False) = total_trials ?v + 1"
    by (simp_all add: lv_recordOutcome_def Let_def)
  have c': "total_trials (lv_recordOutcome ?v False) = word_of_nat (Suc (length bs))"
    by (simp add: c b)
  have d: "\<not> hasLearned (lv_recordOutcome ?v False)"
    by (simp add: hasLearned_def requiredSuccesses_def c)
  have e: "length bs < 2 ^ 31 \<longrightarrow>
      sint (total_trials ?v) = int (length bs) \<and> sint (successes ?v) = int (streak bs) \<and>
      (hasLearned ?v \<longleftrightarrow> 5 \<le> length bs \<and> 4 \<le> streak bs)"
  proof
    assume l: "length bs < 2 ^ 31"
    with streak_le [of bs] have s: "streak bs < 2 ^ 31" by simp
    have t: "sint (total_trials ?v) = int (length bs)"
      using l by (simp only: b sint_of_nat_small)
    have u: "sint (successes ?v) = int (streak bs)"
      using s by (simp only: b sint_of_nat_small)
    show "sint (total_trials ?v) = int (length bs) \<and> sint (successes ?v) = int (streak bs) \<and>
      (hasLearned ?v \<longleftrightarrow> 5 \<le> length bs \<and> 4 \<le> streak bs)"
      by (simp add: a t u)
  qed
  from a b c c' d e show ?thesis by blast
qed

theorem validator_learned_and_failure_reset_witness:
  "length [False, True, True, True, True] < 2 ^ 31 \<and>
   sint (total_trials (lv_run lv_reset [False, True, True, True, True])) = 5 \<and>
   sint (successes (lv_run lv_reset [False, True, True, True, True])) = 4 \<and>
   hasLearned (lv_run lv_reset [False, True, True, True, True]) \<and>
   \<not> hasLearned (lv_recordOutcome (lv_run lv_reset [False, True, True, True, True]) False)"
  using validator_learned_and_failure_reset [of "[False, True, True, True, True]"]
  by (simp add: streak_def)

subsection \<open>GauntletState\<close>

lemma g_run_snoc: "g_run g (bs @ [b]) = g_recordOutcome (g_run g bs) b"
  by (induction bs arbitrary: g) auto

lemma g_run_closed:
  "g_run g_reset bs =
     \<lparr>warmup_completed = word_of_nat (min (length bs) 10),
      scored_completed = word_of_nat (length bs - 10),
      correct = word_of_nat (hits (drop 10 bs))\<rparr>"
proof (induction bs rule: rev_induct)
  case Nil
  show ?case by (simp add: g_reset_def hits_def)
next
  case (snoc b bs)
  show ?case
  proof (cases "length bs < 10")
    case True
    then have "sint (word_of_nat (length bs) :: 32 word) = int (length bs)"
      by (intro sint_of_nat_small) simp
    with True show ?thesis
      by (simp add: g_run_snoc snoc.IH g_recordOutcome_def inWarmup_def WARMUP_TRIALS_def
          hits_def min_def)
  next
    case False
    then show ?thesis
      by (simp add: g_run_snoc snoc.IH g_recordOutcome_def inWarmup_def WARMUP_TRIALS_def
          hits_def min_def Let_def Suc_diff_le)
  qed
qed

lemma hits_le: "hits bs \<le> length bs"
  by (simp add: hits_def)

lemma c_div_nonneg: "0 \<le> a \<Longrightarrow> 0 < b \<Longrightarrow> c_div a b = a div b"
  by (cases "a = 0") (simp_all add: c_div_def)

lemma percent_of_bounds: "0 \<le> percent_of ss \<and> percent_of ss \<le> 100"
proof (cases "ss = []")
  case True then show ?thesis by (simp add: percent_of_def)
next
  case False
  then have pos: "0 < int (length ss)" by simp
  have nn: "0 \<le> int (hits ss) * 100" by simp
  have lo: "0 \<le> (int (hits ss) * 100) div int (length ss)"
    using pos nn by (simp only: pos_imp_zdiv_nonneg_iff)
  have "int (hits ss) * 100 \<le> 100 * int (length ss)" using hits_le [of ss] by simp
  then have "(int (hits ss) * 100) div int (length ss) \<le> (100 * int (length ss)) div int (length ss)"
    using pos by (intro zdiv_mono1)
  then have "(int (hits ss) * 100) div int (length ss) \<le> 100" using pos by simp
  with lo False show ?thesis by (simp add: percent_of_def)
qed

lemma scorePercent_in_range:
  assumes h: "h \<le> 21474836" and n: "n < 2 ^ 31" and hn: "h \<le> n"
  shows "sint (scorePercent \<lparr>warmup_completed = w, scored_completed = word_of_nat n,
            correct = word_of_nat h\<rparr>) =
         (if n = 0 then 0 else (int h * 100) div int n)"
proof (cases "n = 0")
  case True
  then show ?thesis by (simp add: scorePercent_def)
next
  case False
  have nz: "(word_of_nat n :: 32 word) \<noteq> 0"
  proof
    assume "(word_of_nat n :: 32 word) = 0"
    then have "sint (word_of_nat n :: 32 word) = 0" by simp
    with n False show False by (simp add: sint_of_nat_small)
  qed
  have "h * 100 < 2 ^ 31" using h by simp
  then have prod: "sint (word_of_nat h * 100 :: 32 word) = int h * 100"
    using sint_of_nat_small [of "h * 100"] by simp
  have den: "sint (word_of_nat n :: 32 word) = int n" using n by (rule sint_of_nat_small)
  have q: "c_div (int h * 100) (int n) = (int h * 100) div int n"
    using False by (intro c_div_nonneg) simp_all
  have "int h * 100 \<le> 100 * int n" using hn by simp
  then have "(int h * 100) div int n \<le> (100 * int n) div int n"
    using False by (intro zdiv_mono1) simp_all
  then have hi: "(int h * 100) div int n \<le> 100" using False by simp
  have lo: "0 \<le> (int h * 100) div int n"
    using False by (simp add: pos_imp_zdiv_nonneg_iff)
  have "sint (word_of_int ((int h * 100) div int n) :: 32 word) = (int h * 100) div int n"
    using lo hi by (intro sint_of_int_small) simp_all
  with nz False show ?thesis
    by (simp add: scorePercent_def int_div_def prod den q)
qed

lemma scorePercent_run:
  assumes "hits (drop 10 bs) \<le> 21474836" and "length bs < 2 ^ 31 + 10"
  shows "sint (scorePercent (g_run g_reset bs)) = percent_of (drop 10 bs)"
proof -
  have n: "length bs - 10 < 2 ^ 31" using assms(2) by simp
  have hn: "hits (drop 10 bs) \<le> length bs - 10" using hits_le [of "drop 10 bs"] by simp
  show ?thesis
    unfolding g_run_closed
    by (simp only: scorePercent_in_range [OF assms(1) n hn]) (simp add: percent_of_def)
qed

lemma isComplete_run:
  "length as \<le> 30 \<Longrightarrow> isComplete (g_run g_reset as) \<longleftrightarrow> 30 \<le> length as"
proof -
  assume "length as \<le> 30"
  then have "sint (word_of_nat (length as - 10) :: 32 word) = int (length as - 10)"
    by (intro sint_of_nat_small) simp
  then show ?thesis
    by (auto simp: g_run_closed isComplete_def SCORED_TRIALS_def)
qed

lemma gauntlet_loop_run_general:
  "length as \<le> 30 \<Longrightarrow> gauntlet_loop (g_run g_reset as) bs = g_run g_reset (take 30 (as @ bs))"
proof (induction bs arbitrary: as)
  case Nil
  then show ?case by simp
next
  case (Cons b bs)
  show ?case
  proof (cases "30 \<le> length as")
    case True
    with Cons.prems show ?thesis by (simp add: isComplete_run)
  next
    case False
    then have "length (as @ [b]) \<le> 30" by simp
    from Cons.IH [OF this] False Cons.prems show ?thesis
      by (simp add: isComplete_run g_run_snoc)
  qed
qed

lemma gauntlet_loop_run: "gauntlet_loop g_reset bs = g_run g_reset (take 30 bs)"
  using gauntlet_loop_run_general [of "[]" bs] by simp

lemma scorePercent_take30:
  "sint (scorePercent (g_run g_reset (take 30 bs))) = percent_of (take 20 (drop 10 bs))"
proof -
  have "hits (drop 10 (take 30 bs)) \<le> length (drop 10 (take 30 bs))" by (rule hits_le)
  then have h: "hits (drop 10 (take 30 bs)) \<le> 21474836" by simp
  have l: "length (take 30 bs) < 2 ^ 31 + 10" by simp
  have "take 20 (drop 10 bs) = drop 10 (take 30 bs)" by (simp add: drop_take)
  with scorePercent_run [OF h l] show ?thesis by simp
qed

lemma scorePercent_state:
  assumes s: "0 < sint (scored_completed g)" and c0: "0 \<le> sint (correct g)"
    and c1: "sint (correct g) \<le> 21474836"
  shows "sint (scorePercent g) = (sint (correct g) * 100) div sint (scored_completed g)"
proof -
  let ?c = "sint (correct g)" and ?s = "sint (scored_completed g)"
  have nz: "scored_completed g \<noteq> 0" using s by auto
  have "sint (correct g * 100) = signed_take_bit 31 (?c * 100)"
    by (simp add: sint_word_ariths)
  also have "\<dots> = ?c * 100"
    using c0 c1 by (intro signed_take_bit_int_eq_self) simp_all
  finally have prod: "sint (correct g * 100) = ?c * 100" .
  have q: "c_div (?c * 100) ?s = (?c * 100) div ?s"
    using s c0 by (intro c_div_nonneg) simp_all
  have lo: "0 \<le> (?c * 100) div ?s"
    using s c0 by (simp add: pos_imp_zdiv_nonneg_iff)
  have "(?c * 100) div ?s \<le> (?c * 100) div 1"
    using s c0 by (intro zdiv_mono2) simp_all
  then have "(?c * 100) div ?s \<le> ?c * 100" by simp
  then have hi: "(?c * 100) div ?s < 2 ^ 31" using c1 by simp
  have "sint (word_of_int ((?c * 100) div ?s) :: 32 word) = (?c * 100) div ?s"
    using lo hi by (intro sint_of_int_small) simp_all
  with nz show ?thesis
    by (simp add: scorePercent_def int_div_def prod q)
qed

lemma hits_simps:
  "hits [] = 0" "hits (replicate n True) = n" "hits (replicate n False) = 0"
  "hits (xs @ ys) = hits xs + hits ys" "hits (False # xs) = hits xs" "hits (True # xs) = Suc (hits xs)"
  by (simp_all add: hits_def)

lemma all_successes:
  "g_run g_reset (replicate (10 + n) True) =
     \<lparr>warmup_completed = 10, scored_completed = word_of_nat n, correct = word_of_nat n\<rparr>"
  by (simp add: g_run_closed hits_simps)

lemma overflow_state:
  "sint (scorePercent \<lparr>warmup_completed = 10, scored_completed = 21474837, correct = 21474837\<rparr>) = - 99"
  by (simp add: scorePercent_def int_div_def c_div_def)

text \<open>
  Claim C3, as stated, fails. \<^verbatim>\<open>recordOutcome\<close> goes on scoring after the 30th outcome:
  10 warmup outcomes, 20 successes and 5 failures give \<^verbatim>\<open>scorePercent() == 80\<close>, while the
  11th to 30th outcomes alone are 100 percent correct. And \<^verbatim>\<open>scorePercent()\<close> is not the
  integer percentage once \<^verbatim>\<open>correct * 100\<close> leaves the range of \<^verbatim>\<open>int\<close>: with
  21474837 of 21474837 correct it is -99.
\<close>

theorem gauntlet_scoring_counterexample:
  "sint (scorePercent (g_run g_reset (replicate 10 False @ replicate 20 True @ replicate 5 False))) = 80 \<and>
   percent_of (take 20 (drop 10 (replicate 10 False @ replicate 20 True @ replicate 5 False))) = 100 \<and>
   sint (scorePercent \<lparr>warmup_completed = 10, scored_completed = 21474837, correct = 21474837\<rparr>) = - 99"
proof -
  let ?B = "replicate 10 False @ replicate 20 True @ replicate 5 False"
  have h: "hits (drop 10 ?B) = 20" by (simp add: hits_simps)
  have "sint (scorePercent (g_run g_reset ?B)) = percent_of (drop 10 ?B)"
  proof (rule scorePercent_run)
    show "hits (drop 10 ?B) \<le> 21474836" by (simp only: h)
    show "length ?B < 2 ^ 31 + 10" by simp
  qed
  also have "\<dots> = 80" by (simp add: percent_of_def hits_simps)
  finally have a: "sint (scorePercent (g_run g_reset ?B)) = 80" .
  have b: "percent_of (take 20 (drop 10 ?B)) = 100" by (simp add: percent_of_def hits_simps)
  from a b overflow_state show ?thesis by blast
qed

text \<open>
  Claim C3, amended. From reset, the first 10 recorded outcomes leave \<^verbatim>\<open>correct\<close> and
  \<^verbatim>\<open>scored_completed\<close> at 0. Every later outcome is scored: while at most 21474836 scored
  outcomes are correct and fewer than \<open>2^31\<close> are scored, \<^verbatim>\<open>scorePercent()\<close> is the
  percentage of successes among all outcomes from the 11th on. So the 11th to 30th outcomes
  are the only ones reflected when at most 30 are recorded, as in the drivers' loop, which
  stops recording at \<^verbatim>\<open>isComplete()\<close>. \<^verbatim>\<open>isComplete()\<close> holds exactly when
  \<^verbatim>\<open>scored_completed >= 20\<close>. \<^verbatim>\<open>scorePercent()\<close> is 0 when nothing is scored, and is
  \<^verbatim>\<open>correct * 100 / scored_completed\<close> as an integer percentage while \<^verbatim>\<open>correct\<close> is
  in \<open>[0, 21474836]\<close> and \<^verbatim>\<open>scored_completed\<close> is positive. 15 successes among 20 scored
  outcomes give 75.
\<close>

theorem gauntlet_scoring:
  "correct (g_run g_reset (take 10 bs)) = 0 \<and>
   scored_completed (g_run g_reset (take 10 bs)) = 0 \<and>
   (hits (drop 10 bs) \<le> 21474836 \<and> length bs < 2 ^ 31 + 10 \<longrightarrow>
      sint (scorePercent (g_run g_reset bs)) = percent_of (drop 10 bs)) \<and>
   sint (scorePercent (g_run g_reset (take 30 bs))) = percent_of (take 20 (drop 10 bs)) \<and>
   sint (scorePercent (gauntlet_loop g_reset bs)) = percent_of (take 20 (drop 10 bs)) \<and>
   (isComplete g \<longleftrightarrow> sint (scored_completed g) \<ge> 20) \<and>
   (scored_completed g = 0 \<longrightarrow> scorePercent g = 0) \<and>
   (0 < sint (scored_completed g) \<and> 0 \<le> sint (correct g) \<and> sint (correct g) \<le> 21474836 \<longrightarrow>
      sint (scorePercent g) = (sint (correct g) * 100) div sint (scored_completed g)) \<and>
   (length ws = 10 \<and> length ss = 20 \<and> hits ss = 15 \<longrightarrow>
      scored_completed (g_run g_reset (ws @ ss)) = 20 \<and> correct (g_run g_reset (ws @ ss)) = 15 \<and>
      sint (scorePercent (g_run g_reset (ws @ ss))) = 75)"
proof -
  have a: "correct (g_run g_reset (take 10 bs)) = 0 \<and>
      scored_completed (g_run g_reset (take 10 bs)) = 0"
    by (simp add: g_run_closed hits_def)
  have b: "hits (drop 10 bs) \<le> 21474836 \<and> length bs < 2 ^ 31 + 10 \<longrightarrow>
      sint (scorePercent (g_run g_reset bs)) = percent_of (drop 10 bs)"
    using scorePercent_run [of bs] by blast
  have c: "sint (scorePercent (g_run g_reset (take 30 bs))) = percent_of (take 20 (drop 10 bs))"
    by (rule scorePercent_take30)
  have c': "sint (scorePercent (gauntlet_loop g_reset bs)) = percent_of (take 20 (drop 10 bs))"
    using c by (simp only: gauntlet_loop_run)
  have d: "isComplete g \<longleftrightarrow> sint (scored_completed g) \<ge> 20"
    by (simp add: isComplete_def SCORED_TRIALS_def)
  have e: "scored_completed g = 0 \<longrightarrow> scorePercent g = 0"
    by (simp add: scorePercent_def)
  have f: "0 < sint (scored_completed g) \<and> 0 \<le> sint (correct g) \<and> sint (correct g) \<le> 21474836 \<longrightarrow>
      sint (scorePercent g) = (sint (correct g) * 100) div sint (scored_completed g)"
    using scorePercent_state [of g] by blast
  have k: "length ws = 10 \<and> length ss = 20 \<and> hits ss = 15 \<longrightarrow>
      scored_completed (g_run g_reset (ws @ ss)) = 20 \<and> correct (g_run g_reset (ws @ ss)) = 15 \<and>
      sint (scorePercent (g_run g_reset (ws @ ss))) = 75"
  proof
    assume h: "length ws = 10 \<and> length ss = 20 \<and> hits ss = 15"
    then have st: "g_run g_reset (ws @ ss) =
        \<lparr>warmup_completed = 10, scored_completed = 20, correct = 15\<rparr>"
      by (simp add: g_run_closed)
    show "scored_completed (g_run g_reset (ws @ ss)) = 20 \<and> correct (g_run g_reset (ws @ ss)) = 15 \<and>
      sint (scorePercent (g_run g_reset (ws @ ss))) = 75"
      unfolding st by (simp add: scorePercent_def int_div_def c_div_def)
  qed
  from a b c c' d e f k show ?thesis by blast
qed

theorem gauntlet_scoring_witness:
  "length (replicate 10 False) = 10 \<and>
   length (replicate 15 True @ replicate 5 False) = 20 \<and>
   hits (replicate 15 True @ replicate 5 False) = 15 \<and>
   sint (scorePercent (g_run g_reset (replicate 10 False @ replicate 15 True @ replicate 5 False))) = 75 \<and>
   hits (drop 10 (replicate 10 False @ replicate 20 True @ replicate 5 False)) \<le> 21474836 \<and>
   length (replicate 10 False @ replicate 20 True @ replicate 5 False) < 2 ^ 31 + 10 \<and>
   sint (scorePercent (g_run g_reset (replicate 10 False @ replicate 20 True @ replicate 5 False))) =
     percent_of (drop 10 (replicate 10 False @ replicate 20 True @ replicate 5 False)) \<and>
   scored_completed g_reset = 0 \<and> scorePercent g_reset = 0 \<and>
   0 < sint (scored_completed \<lparr>warmup_completed = 10, scored_completed = 3, correct = 2\<rparr>) \<and>
   sint (scorePercent \<lparr>warmup_completed = 10, scored_completed = 3, correct = 2\<rparr>) = 66"
proof -
  let ?A = "replicate 10 False @ replicate 15 True @ replicate 5 False"
  let ?B = "replicate 10 False @ replicate 20 True @ replicate 5 False"
  let ?g = "\<lparr>warmup_completed = 10, scored_completed = 3, correct = 2\<rparr> :: GauntletState"
  have hA: "hits (replicate 15 True @ replicate 5 False) = 15" by (simp add: hits_simps)
  have hB: "hits (drop 10 ?B) \<le> 21474836" by (simp add: hits_simps)
  from gauntlet_scoring [of "[]" g_reset "replicate 10 False" "replicate 15 True @ replicate 5 False"] hA
  have a: "sint (scorePercent (g_run g_reset ?A)) = 75" and z: "scorePercent g_reset = 0"
    by (simp_all add: g_reset_def)
  from gauntlet_scoring [of ?B ?g] hB
  have b: "sint (scorePercent (g_run g_reset ?B)) = percent_of (drop 10 ?B)"
    and c: "sint (scorePercent ?g) = 66"
    by simp_all
  from a b c z hA hB show ?thesis by (simp add: g_reset_def)
qed

text \<open>
  Claim C10, amended. After every sequence of \<^verbatim>\<open>recordOutcome\<close> calls from the reset
  state \<^verbatim>\<open>warmup_completed\<close> is between 0 and 10. While fewer than \<open>2^31\<close> outcomes
  are scored, \<^verbatim>\<open>correct\<close> is between 0 and \<^verbatim>\<open>scored_completed\<close>. While in addition at
  most 21474836 scored outcomes are correct, so that \<^verbatim>\<open>correct * 100\<close> is in the range of
  \<^verbatim>\<open>int\<close>, \<^verbatim>\<open>scorePercent()\<close> lies between 0 and 100.
\<close>

theorem gauntlet_invariants:
  "0 \<le> sint (warmup_completed (g_run g_reset bs)) \<and>
   sint (warmup_completed (g_run g_reset bs)) \<le> 10 \<and>
   (length bs < 2 ^ 31 + 10 \<longrightarrow>
      0 \<le> sint (correct (g_run g_reset bs)) \<and>
      sint (correct (g_run g_reset bs)) \<le> sint (scored_completed (g_run g_reset bs))) \<and>
   (hits (drop 10 bs) \<le> 21474836 \<and> length bs < 2 ^ 31 + 10 \<longrightarrow>
      0 \<le> sint (scorePercent (g_run g_reset bs)) \<and>
      sint (scorePercent (g_run g_reset bs)) \<le> 100)"
proof -
  have w: "sint (warmup_completed (g_run g_reset bs)) = int (min (length bs) 10)"
    unfolding g_run_closed by (simp only: GauntletState.simps) (rule sint_of_nat_small, simp)
  have a: "0 \<le> sint (warmup_completed (g_run g_reset bs)) \<and>
      sint (warmup_completed (g_run g_reset bs)) \<le> 10"
    by (simp add: w)
  have b: "length bs < 2 ^ 31 + 10 \<longrightarrow>
      0 \<le> sint (correct (g_run g_reset bs)) \<and>
      sint (correct (g_run g_reset bs)) \<le> sint (scored_completed (g_run g_reset bs))"
  proof
    assume "length bs < 2 ^ 31 + 10"
    then have n: "length bs - 10 < 2 ^ 31" by simp
    have hn: "hits (drop 10 bs) \<le> length bs - 10" using hits_le [of "drop 10 bs"] by simp
    with n have h: "hits (drop 10 bs) < 2 ^ 31" by simp
    show "0 \<le> sint (correct (g_run g_reset bs)) \<and>
      sint (correct (g_run g_reset bs)) \<le> sint (scored_completed (g_run g_reset bs))"
      using hn by (simp add: g_run_closed sint_of_nat_small [OF n] sint_of_nat_small [OF h])
  qed
  have c: "hits (drop 10 bs) \<le> 21474836 \<and> length bs < 2 ^ 31 + 10 \<longrightarrow>
      0 \<le> sint (scorePercent (g_run g_reset bs)) \<and>
      sint (scorePercent (g_run g_reset bs)) \<le> 100"
    using scorePercent_run [of bs] percent_of_bounds [of "drop 10 bs"] by auto
  from a b c show ?thesis by blast
qed

theorem gauntlet_invariants_witness:
  "length (replicate 12 True @ [False, True]) < 2 ^ 31 + 10 \<and>
   hits (drop 10 (replicate 12 True @ [False, True])) \<le> 21474836 \<and>
   sint (correct (g_run g_reset (replicate 12 True @ [False, True]))) \<le>
     sint (scored_completed (g_run g_reset (replicate 12 True @ [False, True]))) \<and>
   0 \<le> sint (scorePercent (g_run g_reset (replicate 12 True @ [False, True]))) \<and>
   sint (scorePercent (g_run g_reset (replicate 12 True @ [False, True]))) \<le> 100"
proof -
  have h: "hits (drop 10 (replicate 12 True @ [False, True])) \<le> 21474836"
    by (simp add: hits_simps)
  from gauntlet_invariants [of "replicate 12 True @ [False, True]"] h
  show ?thesis by simp
qed

lemma mixed_run:
  "g_run g_reset (replicate 10 True @ False # replicate n True) =
     \<lparr>warmup_completed = 10, scored_completed = word_of_nat (Suc n), correct = word_of_nat n\<rparr>"
  by (simp add: g_run_closed hits_simps)

text \<open>
  Claim C10, as stated, fails. After 10 warmup calls and 21474837 successes the 32-bit
  product \<^verbatim>\<open>correct * 100\<close> has wrapped and \<^verbatim>\<open>scorePercent()\<close> is -99. After 10 warmup
  calls, one failure and 2147483647 successes, \<^verbatim>\<open>scored_completed\<close> has wrapped to
  \<open>-2^31\<close> and \<^verbatim>\<open>correct\<close> is above it.
\<close>

theorem gauntlet_invariants_counterexample:
  "sint (scorePercent (g_run g_reset (replicate 21474847 True))) = - 99 \<and>
   sint (correct (g_run g_reset (replicate 10 True @ False # replicate 2147483647 True))) = 2147483647 \<and>
   sint (scored_completed (g_run g_reset (replicate 10 True @ False # replicate 2147483647 True))) =
     - 2147483648"
proof -
  have "(21474847 :: nat) = 10 + 21474837" by simp
  then have "g_run g_reset (replicate 21474847 True) =
      \<lparr>warmup_completed = 10, scored_completed = word_of_nat 21474837, correct = word_of_nat 21474837\<rparr>"
    by (simp only: all_successes)
  then have a: "sint (scorePercent (g_run g_reset (replicate 21474847 True))) = - 99"
    by (simp add: overflow_state)
  have b: "sint (correct (g_run g_reset (replicate 10 True @ False # replicate 2147483647 True))) = 2147483647"
    "sint (scored_completed (g_run g_reset (replicate 10 True @ False # replicate 2147483647 True))) =
     - 2147483648"
    by (simp_all add: mixed_run)
  from a b show ?thesis by blast
qed

subsection \<open>TrialHistory\<close>

lemma evict_drop: "evict es = drop (length es - MAX_ENTRIES) es"
proof (induction es rule: evict.induct)
  case (1 es)
  show ?case
  proof (cases "length es > MAX_ENTRIES")
    case True
    then have ne: "es \<noteq> []" by auto
    from True have "Suc (length es - 5) = length es - 4"
      by (simp add: MAX_ENTRIES_def)
    with True 1 ne show ?thesis
      by (subst evict.simps) (simp add: drop_Suc [symmetric] MAX_ENTRIES_def)
  next
    case False
    then show ?thesis by (subst evict.simps) simp
  qed
qed

lemma history_add_drop:
  "history_add es n c s =
     drop (Suc (length es) - 4) (es @ [\<lparr>trialNum = n, correct_flag = c, summary = s\<rparr>])"
  by (simp add: history_add_def evict_drop MAX_ENTRIES_def)

lemma history_step_bound: "length (history_step es opn) \<le> 4"
  by (cases opn) (auto simp: history_add_drop history_clear_def)

lemma history_run_bound: "length es \<le> 4 \<Longrightarrow> length (history_run es ops) \<le> 4"
  by (induction ops arbitrary: es) (auto simp: history_step_bound)

text \<open>
  Claim C8. After every sequence of \<^verbatim>\<open>add\<close> and \<^verbatim>\<open>clear\<close> calls on an empty history
  at most 4 entries are held; \<^verbatim>\<open>add\<close> appends the new entry and keeps the last 4 of the
  result, dropping from the front; six \<^verbatim>\<open>add\<close> calls leave the third to sixth entries,
  in the order they were added.
\<close>

theorem history_window:
  "length (history_run [] ops) \<le> 4 \<and>
   history_add es n c s =
     drop (Suc (length es) - 4) (es @ [\<lparr>trialNum = n, correct_flag = c, summary = s\<rparr>]) \<and>
   last (history_add es n c s) = \<lparr>trialNum = n, correct_flag = c, summary = s\<rparr> \<and>
   history_run [] [Add n1 c1 s1, Add n2 c2 s2, Add n3 c3 s3, Add n4 c4 s4, Add n5 c5 s5, Add n6 c6 s6] =
     [\<lparr>trialNum = n3, correct_flag = c3, summary = s3\<rparr>,
      \<lparr>trialNum = n4, correct_flag = c4, summary = s4\<rparr>,
      \<lparr>trialNum = n5, correct_flag = c5, summary = s5\<rparr>,
      \<lparr>trialNum = n6, correct_flag = c6, summary = s6\<rparr>]"
  by (simp add: history_run_bound history_add_drop)

subsection \<open>TextBuffer: writes outside the grid are dropped\<close>

lemma overlay_length [simp]: "length (overlay row x src from len) = length row"
  by (simp add: overlay_def)

lemma overlay_empty: "len \<le> from \<or> WIDTH \<le> x + from \<Longrightarrow> overlay row x src from len = row"
  by (auto simp: overlay_def intro!: nth_equalityI)

lemma overlay_skip:
  "x + from < 0 \<Longrightarrow> overlay row x src from len = overlay row x src (from + 1) len"
  by (auto simp: overlay_def)

lemma overlay_step:
  assumes "0 \<le> x + from" "from < len" "x + from < WIDTH"
  shows "overlay (row[nat (x + from) := src (nat from)]) x src (from + 1) len =
         overlay row x src from len"
proof (rule nth_equalityI)
  show "length (overlay (row[nat (x + from) := src (nat from)]) x src (from + 1) len) =
        length (overlay row x src from len)" by simp
next
  fix k assume "k < length (overlay (row[nat (x + from) := src (nat from)]) x src (from + 1) len)"
  then have k: "k < length row" by simp
  show "overlay (row[nat (x + from) := src (nat from)]) x src (from + 1) len ! k =
        overlay row x src from len ! k"
  proof (cases "int k = x + from")
    case True
    then have "nat (int k - x) = nat from" and "k = nat (x + from)" by simp_all
    with True k assms show ?thesis by (simp add: overlay_def)
  next
    case False
    then have "k \<noteq> nat (x + from)" using assms by auto
    with False k show ?thesis by (auto simp: overlay_def)
  qed
qed

lemma buffer_ok_update:
  "buffer_ok buf \<Longrightarrow> length row = length (buf ! r) \<Longrightarrow> r < length buf \<Longrightarrow> buffer_ok (buf[r := row])"
  by (auto simp: buffer_ok_def list_all_length nth_list_update)

lemma putString_loop_overlay:
  "0 \<le> y \<Longrightarrow> y < HEIGHT \<Longrightarrow> int (length buf) = HEIGHT \<Longrightarrow>
   putString_loop buf x y str len i =
     Inr (buf[nat y := overlay (buf ! nat y) x (\<lambda>j. str ! j) (int i) (int len)])"
proof (induction buf x y str len i rule: putString_loop.induct)
  case (1 buf x y str len i)
  show ?case
  proof (cases "i < len \<and> x + int i < WIDTH")
    case False
    then have "overlay (buf ! nat y) x (\<lambda>j. str ! j) (int i) (int len) = buf ! nat y"
      by (intro overlay_empty) auto
    with False show ?thesis
      by (subst putString_loop.simps) auto
  next
    case True
    show ?thesis
    proof (cases "x + int i \<ge> 0")
      case neg: False
      then have "overlay (buf ! nat y) x (\<lambda>j. str ! j) (int i) (int len) =
                 overlay (buf ! nat y) x (\<lambda>j. str ! j) (int i + 1) (int len)"
        by (intro overlay_skip) simp
      moreover have "putString_loop buf x y str len (Suc i) =
          Inr (buf[nat y := overlay (buf ! nat y) x (\<lambda>j. str ! j) (int (Suc i)) (int len)])"
        using "1.IH"(2) True neg "1.prems" by simp
      ultimately show ?thesis
        using True neg by (subst putString_loop.simps) (simp add: add.commute)
    next
      case pos: True
      let ?buf' = "buf[nat y := (buf ! nat y)[nat (x + int i) := str ! i]]"
      have pk: "poke buf y (x + int i) (str ! i) = Inr ?buf'"
        using True pos "1.prems" by (simp add: poke_def)
      have ny: "nat y < length buf" using "1.prems" by auto
      have "putString_loop ?buf' x y str len (Suc i) =
          Inr (?buf'[nat y := overlay (?buf' ! nat y) x (\<lambda>j. str ! j) (int (Suc i)) (int len)])"
        using "1.IH"(1) [OF True pos pk] "1.prems" by simp
      also have "?buf' ! nat y = (buf ! nat y)[nat (x + int i) := str ! i]"
        using ny by simp
      also have "overlay ((buf ! nat y)[nat (x + int i) := str ! i]) x (\<lambda>j. str ! j) (int (Suc i)) (int len) =
          overlay (buf ! nat y) x (\<lambda>j. str ! j) (int i) (int len)"
        using overlay_step [of x "int i" "int len" "buf ! nat y" "\<lambda>j. str ! j"] True pos
        by (simp add: add.commute)
      finally show ?thesis
        using True pos pk by (subst putString_loop.simps) simp
    qed
  qed
qed


lemma drawHLine_loop_overlay:
  "int (length buf) = HEIGHT \<Longrightarrow>
   drawHLine_loop buf x y len c i =
     Inr (if 0 \<le> y \<and> y < HEIGHT
          then buf[nat y := overlay (buf ! nat y) x (\<lambda>j. c) i len] else buf)"
proof (induction buf x y len c i rule: drawHLine_loop.induct)
  case (1 buf x y len c i)
  show ?case
  proof (cases "i < len \<and> x + i < WIDTH")
    case False
    then have "overlay (buf ! nat y) x (\<lambda>j. c) i len = buf ! nat y"
      by (intro overlay_empty) auto
    with False show ?thesis
      by (subst drawHLine_loop.simps) auto
  next
    case True
    show ?thesis
    proof (cases "y \<ge> 0 \<and> y < HEIGHT \<and> x + i \<ge> 0")
      case skip: False
      have rec: "drawHLine_loop buf x y len c (i + 1) =
          Inr (if 0 \<le> y \<and> y < HEIGHT
               then buf[nat y := overlay (buf ! nat y) x (\<lambda>j. c) (i + 1) len] else buf)"
        using "1.IH"(2) [OF True skip] "1.prems" by simp
      show ?thesis
      proof (cases "0 \<le> y \<and> y < HEIGHT")
        case False
        with rec True skip show ?thesis
          by (subst drawHLine_loop.simps) auto
      next
        case inrow: True
        with skip have "x + i < 0" by auto
        then have "overlay (buf ! nat y) x (\<lambda>j. c) i len =
                   overlay (buf ! nat y) x (\<lambda>j. c) (i + 1) len"
          by (rule overlay_skip)
        with rec True skip inrow show ?thesis
          by (subst drawHLine_loop.simps) auto
      qed
    next
      case pos: True
      let ?buf' = "buf[nat y := (buf ! nat y)[nat (x + i) := c]]"
      have pk: "poke buf y (x + i) c = Inr ?buf'"
        using True pos by (simp add: poke_def)
      have ny: "nat y < length buf" using "1.prems" pos by auto
      have "drawHLine_loop ?buf' x y len c (i + 1) =
          Inr (?buf'[nat y := overlay (?buf' ! nat y) x (\<lambda>j. c) (i + 1) len])"
        using "1.IH"(1) [OF True pos pk] "1.prems" pos by simp
      also have "?buf' ! nat y = (buf ! nat y)[nat (x + i) := c]"
        using ny by simp
      also have "overlay ((buf ! nat y)[nat (x + i) := c]) x (\<lambda>j. c) (i + 1) len =
          overlay (buf ! nat y) x (\<lambda>j. c) i len"
        using overlay_step [of x i len "buf ! nat y" "\<lambda>j. c"] True pos by simp
      finally show ?thesis
        using True pos pk by (subst drawHLine_loop.simps) simp
    qed
  qed
qed

lemma buffer_ok_clear: "buffer_ok clear"
  by (simp add: buffer_ok_def clear_def HEIGHT_def WIDTH_def list_all_length)

lemma buffer_ok_row:
  "buffer_ok buf \<Longrightarrow> 0 \<le> y \<Longrightarrow> y < HEIGHT \<Longrightarrow> length row = length (buf ! nat y) \<Longrightarrow>
   buffer_ok (buf[nat y := row])"
  by (rule buffer_ok_update) (auto simp: buffer_ok_def)

lemma putString_overlay:
  "int (length buf) = HEIGHT \<Longrightarrow>
   putString buf x y str =
     Inr (if 0 \<le> y \<and> y < HEIGHT
          then buf[nat y := overlay (buf ! nat y) x (\<lambda>j. str ! j) 0 (int (strlen str))]
          else buf)"
  using putString_loop_overlay [of y buf x str "strlen str" 0]
  by (auto simp: putString_def)

lemma putChar_update:
  "putChar buf x y c =
     Inr (if 0 \<le> x \<and> x < WIDTH \<and> 0 \<le> y \<and> y < HEIGHT
          then buf[nat y := (buf ! nat y)[nat x := c]] else buf)"
  by (auto simp: putChar_def poke_def)

lemma overlay_nth:
  "k < length row \<Longrightarrow>
   overlay row x src from len ! k =
     (if x + from \<le> int k \<and> int k < x + len \<and> int k < WIDTH then src (nat (int k - x)) else row ! k)"
  by (simp add: overlay_def)

text \<open>
  Claim C9. On a buffer of 24 rows of 81 cells no drawing call faults, and each returns a
  buffer of the same shape. \<^verbatim>\<open>putString\<close> and \<^verbatim>\<open>drawHLine\<close> change row \<open>y\<close> only,
  and only when \<open>0 \<le> y < 24\<close>; there they store the character for column \<open>x + i\<close> only
  when \<open>0 \<le> x + i < 80\<close> and leave every other cell as it was; \<^verbatim>\<open>putChar\<close> stores
  only inside the grid. \<^verbatim>\<open>putString(75, 0, "0123456789")\<close> on the cleared buffer writes
  \<^verbatim>\<open>01234\<close> in columns 75 to 79 of row 0 and nothing else; cell 80 keeps the terminator.
\<close>

theorem drawing_clamps_silently:
  "buffer_ok buf \<Longrightarrow>
   putString buf x y str =
     Inr (if 0 \<le> y \<and> y < HEIGHT
          then buf[nat y := overlay (buf ! nat y) x (\<lambda>j. str ! j) 0 (int (strlen str))]
          else buf) \<and>
   putChar buf x y c =
     Inr (if 0 \<le> x \<and> x < WIDTH \<and> 0 \<le> y \<and> y < HEIGHT
          then buf[nat y := (buf ! nat y)[nat x := c]] else buf) \<and>
   drawHLine buf x y len c =
     Inr (if 0 \<le> y \<and> y < HEIGHT
          then buf[nat y := overlay (buf ! nat y) x (\<lambda>j. c) 0 len] else buf) \<and>
   (case putString buf x y str of Inl e \<Rightarrow> False | Inr b \<Rightarrow> buffer_ok b) \<and>
   (case putChar buf x y c of Inl e \<Rightarrow> False | Inr b \<Rightarrow> buffer_ok b) \<and>
   (case drawHLine buf x y len c of Inl e \<Rightarrow> False | Inr b \<Rightarrow> buffer_ok b) \<and>
   (k < length row \<longrightarrow>
      overlay row x src 0 n ! k =
        (if x \<le> int k \<and> int k < x + n \<and> int k < 80 then src (nat (int k - x)) else row ! k)) \<and>
   putString clear 75 0 ''0123456789'' =
     Inr (clear[0 := replicate 75 CHR '' '' @ ''01234'' @ [NUL]])"
proof -
  assume ok: "buffer_ok buf"
  then have len: "int (length buf) = HEIGHT" by (simp add: buffer_ok_def)
  have ps: "putString buf x y str =
     Inr (if 0 \<le> y \<and> y < HEIGHT
          then buf[nat y := overlay (buf ! nat y) x (\<lambda>j. str ! j) 0 (int (strlen str))]
          else buf)"
    using len by (rule putString_overlay)
  have pc: "putChar buf x y c =
     Inr (if 0 \<le> x \<and> x < WIDTH \<and> 0 \<le> y \<and> y < HEIGHT
          then buf[nat y := (buf ! nat y)[nat x := c]] else buf)"
    by (rule putChar_update)
  have dh: "drawHLine buf x y len c =
     Inr (if 0 \<le> y \<and> y < HEIGHT
          then buf[nat y := overlay (buf ! nat y) x (\<lambda>j. c) 0 len] else buf)"
    unfolding drawHLine_def using len by (rule drawHLine_loop_overlay)
  have ps_ok: "case putString buf x y str of Inl e \<Rightarrow> False | Inr b \<Rightarrow> buffer_ok b"
    using ok by (simp add: ps buffer_ok_row)
  have pc_ok: "case putChar buf x y c of Inl e \<Rightarrow> False | Inr b \<Rightarrow> buffer_ok b"
    using ok by (simp add: pc buffer_ok_row)
  have dh_ok: "case drawHLine buf x y len c of Inl e \<Rightarrow> False | Inr b \<Rightarrow> buffer_ok b"
    using ok by (simp add: dh buffer_ok_row)
  have ov: "k < length row \<longrightarrow>
      overlay row x src 0 n ! k =
        (if x \<le> int k \<and> int k < x + n \<and> int k < 80 then src (nat (int k - x)) else row ! k)"
    by (simp add: overlay_nth WIDTH_def)
  have ex: "putString clear 75 0 ''0123456789'' =
     Inr (clear[0 := replicate 75 CHR '' '' @ ''01234'' @ [NUL]])"
    by code_simp
  from ps pc dh ps_ok pc_ok dh_ok ov ex show ?thesis by blast
qed

theorem drawing_clamps_silently_witness:
  "buffer_ok clear \<and>
   putString clear (- 3) 23 ''abcdef'' =
     Inr (clear[23 := overlay (clear ! 23) (- 3) (\<lambda>j. ''abcdef'' ! j) 0 6]) \<and>
   overlay (clear ! 23) (- 3) (\<lambda>j. ''abcdef'' ! j) 0 6 = ''def'' @ replicate 77 CHR '' '' @ [NUL] \<and>
   putChar clear 80 0 CHR ''x'' = Inr clear \<and>
   drawHLine clear 78 24 5 CHR ''-'' = Inr clear \<and>
   (3 < length ''abcdefgh'' \<and> overlay ''abcdefgh'' 2 (\<lambda>j. CHR ''-'') 0 3 ! 3 = CHR ''-'')"
proof -
  have ov: "overlay (clear ! 23) (- 3) (\<lambda>j. ''abcdef'' ! j) 0 6 = ''def'' @ replicate 77 CHR '' '' @ [NUL]"
    by code_simp
  note t1 = drawing_clamps_silently [where buf = clear and x = "- 3" and y = 23 and str = "''abcdef''"]
  note t4 = drawing_clamps_silently [where buf = clear and x = 2
      and k = 3 and row = "''abcdefgh''" and n = 3 and src = "\<lambda>j. CHR ''-''"]
  note t2 = drawing_clamps_silently [where buf = clear and x = 80 and y = 0 and c = "CHR ''x''"]
  note t3 = drawing_clamps_silently [where buf = clear and x = 78 and y = 24 and len = 5 and c = "CHR ''-''"]
  have s: "strlen ''abcdef'' = 6" by (simp add: strlen_def)
  from t1 t2 t3 t4 show ?thesis
    by (simp add: buffer_ok_clear ov s HEIGHT_def WIDTH_def)
qed

subsection \<open>MushroomTrial: ranges of a generated trial\<close>

lemma to_int16_small: "uint w < 2 ^ 15 \<Longrightarrow> sint (to_int16 w) = uint w"
proof -
  assume small: "uint w < 2 ^ 15"
  have "sint (to_int16 w) = signed_take_bit 15 (uint w)"
    by (simp add: to_int16_def signed_ucast_eq)
  also have "\<dots> = uint w"
  proof (rule signed_take_bit_int_eq_self)
    have "(- (2 ^ 15) :: int) \<le> 0" by simp
    also have "0 \<le> uint w" by simp
    finally show "- (2 ^ 15) \<le> uint w" .
    show "uint w < 2 ^ 15" by (rule small)
  qed
  finally show ?thesis .
qed

lemma uint_offset_mod:
  "0 < uint m \<Longrightarrow> uint k + uint m \<le> 2 ^ 32 \<Longrightarrow>
   uint (k + v mod m) = uint k + uint v mod uint m" for k v m :: "32 word"
proof -
  assume m: "0 < uint m" and km: "uint k + uint m \<le> 2 ^ 32"
  have lt: "uint v mod uint m < uint m" using m by simp
  have ge: "0 \<le> uint v mod uint m" using m by simp
  have "uint (k + v mod m) = (uint k + uint v mod uint m) mod 2 ^ 32"
    by (simp add: uint_word_ariths uint_mod)
  also have "\<dots> = uint k + uint v mod uint m"
    using lt ge km by (intro mod_pos_pos_trivial) (simp_all add: add_nonneg_nonneg)
  finally show ?thesis .
qed

lemma draw_value:
  "0 < uint m \<Longrightarrow> uint k + uint m \<le> 2 ^ 15 \<Longrightarrow>
   sint (to_int16 (k + v mod m)) = uint k + uint v mod uint m" for k v m :: "32 word"
proof -
  assume m: "0 < uint m" and km: "uint k + uint m \<le> 2 ^ 15"
  have u: "uint (k + v mod m) = uint k + uint v mod uint m"
    using m km by (intro uint_offset_mod) simp_all
  have "uint v mod uint m < uint m" using m by simp
  with km have "uint (k + v mod m) < 2 ^ 15" by (simp add: u)
  then show ?thesis by (simp add: to_int16_small u)
qed

lemma size_draw: "sint (to_int16 (32 + v mod 96)) = 32 + uint v mod 96"
  using draw_value [of 96 32 v] by simp

lemma color_draw: "sint (to_int16 (v mod 128)) = uint v mod 128"
  using draw_value [of 128 0 v] by simp

lemma redraw_sizeB_post_raw:
  assumes ret: "redraw_sizeB a b r = Some res"
  shows "32 \<le> sint b \<and> sint b \<le> 127 \<longrightarrow>
   32 \<le> sint (fst res) \<and> sint (fst res) \<le> 127 \<and> 20 \<le> \<bar>sint a - sint (fst res)\<bar>"
proof (rule redraw_sizeB.raw_induct
    [where P = "\<lambda>a b r res. 32 \<le> sint b \<and> sint b \<le> 127 \<longrightarrow>
       32 \<le> sint (fst res) \<and> sint (fst res) \<le> 127 \<and> 20 \<le> \<bar>sint a - sint (fst res)\<bar>",
     OF _ ret], goal_cases)
  case (1 f a b r res)
  show ?case
  proof (cases "\<bar>sint a - sint b\<bar> < 20")
    case True
    with 1(2) have call:
      "f a (to_int16 (32 + fst (rng_next r) mod 96)) (snd (rng_next r)) = Some res"
      by (simp add: split_def Let_def)
    have "32 \<le> sint (to_int16 (32 + fst (rng_next r) mod 96)) \<and>
          sint (to_int16 (32 + fst (rng_next r) mod 96)) \<le> 127"
      by (simp add: size_draw)
    with 1(1) [OF call] show ?thesis by simp
  next
    case False
    with 1(2) show ?thesis by auto
  qed
qed

lemma redraw_sizeB_post:
  "redraw_sizeB a b r = Some (b', r') \<Longrightarrow> 32 \<le> sint b \<Longrightarrow> sint b \<le> 127 \<Longrightarrow>
   32 \<le> sint b' \<and> sint b' \<le> 127 \<and> 20 \<le> \<bar>sint a - sint b'\<bar>"
  using redraw_sizeB_post_raw [of a b r "(b', r')"] by simp

text \<open>
  Claim C7. Whenever non-adversarial \<^verbatim>\<open>generate\<close> returns, both sizes lie in \<open>[32, 127]\<close>
  and differ by at least 20, both colors lie in \<open>[0, 127]\<close>, and \<^verbatim>\<open>correctIsA\<close> says
  whether \<^verbatim>\<open>sizeA > sizeB\<close>.
\<close>

theorem mushroom_generate_ranges:
  "generate r False = Some (t, r') \<Longrightarrow>
   32 \<le> sint (sizeA t) \<and> sint (sizeA t) \<le> 127 \<and>
   32 \<le> sint (sizeB t) \<and> sint (sizeB t) \<le> 127 \<and>
   20 \<le> \<bar>sint (sizeA t) - sint (sizeB t)\<bar> \<and>
   0 \<le> sint (colorA t) \<and> sint (colorA t) \<le> 127 \<and>
   0 \<le> sint (colorB t) \<and> sint (colorB t) \<le> 127 \<and>
   correctIsA t = (sint (sizeA t) > sint (sizeB t))"
proof -
  assume gen: "generate r False = Some (t, r')"
  define r1 where "r1 = snd (rng_next r)"
  define r2 where "r2 = snd (rng_next r1)"
  define a where "a = to_int16 (32 + fst (rng_next r) mod 96)"
  define b0 where "b0 = to_int16 (32 + fst (rng_next r1) mod 96)"
  from gen obtain b r3 where loop: "redraw_sizeB a b0 r2 = Some (b, r3)"
    and t: "t = \<lparr>sizeA = a, sizeB = b, colorA = to_int16 (fst (rng_next r3) mod 128),
                  colorB = to_int16 (fst (rng_next (snd (rng_next r3))) mod 128),
                  correctIsA = (sint a > sint b)\<rparr>"
    by (auto simp: generate_def split_def Let_def r1_def r2_def a_def b0_def
        split: option.splits)
  have a: "32 \<le> sint a \<and> sint a \<le> 127" by (simp add: a_def size_draw)
  have b0: "32 \<le> sint b0" "sint b0 \<le> 127" by (simp_all add: b0_def size_draw)
  from redraw_sizeB_post [OF loop b0]
  have b: "32 \<le> sint b \<and> sint b \<le> 127 \<and> 20 \<le> \<bar>sint a - sint b\<bar>" .
  have c: "0 \<le> sint (to_int16 (v mod 128)) \<and> sint (to_int16 (v mod 128)) \<le> 127" for v
  proof -
    have "uint v mod 128 < 128" by (rule pos_mod_bound) simp
    then show ?thesis by (simp add: color_draw)
  qed
  from a b c [of "fst (rng_next r3)"] c [of "fst (rng_next (snd (rng_next r3)))"]
  show ?thesis by (simp add: t)
qed

lemma gen42: "generate (RNG_ctor 42) False =
    Some (\<lparr>sizeA = 104, sizeB = 35, colorA = 64, colorB = 68, correctIsA = True\<rparr>,
          \<lparr>state = 3759983556\<rparr>)"
  by (simp add: generate_def RNG_ctor_def rng_next_def xorshift32_def redraw_sizeB.simps to_int16_def Let_def)

theorem mushroom_generate_ranges_witness:
  "generate (RNG_ctor 42) False =
    Some (\<lparr>sizeA = 104, sizeB = 35, colorA = 64, colorB = 68, correctIsA = True\<rparr>,
          \<lparr>state = 3759983556\<rparr>) \<and>
   32 \<le> sint (104 :: 16 word) \<and> sint (104 :: 16 word) \<le> 127 \<and>
   32 \<le> sint (35 :: 16 word) \<and> sint (35 :: 16 word) \<le> 127 \<and>
   20 \<le> \<bar>sint (104 :: 16 word) - sint (35 :: 16 word)\<bar> \<and>
   0 \<le> sint (64 :: 16 word) \<and> sint (64 :: 16 word) \<le> 127 \<and>
   0 \<le> sint (68 :: 16 word) \<and> sint (68 :: 16 word) \<le> 127 \<and>
   True = (sint (104 :: 16 word) > sint (35 :: 16 word))"
  using mushroom_generate_ranges [OF gen42] gen42 by simp

subsection \<open>RNG: the zero seed\<close>

lemma xor_eq_zero_iff: "x XOR y = 0 \<longleftrightarrow> y = x" for x y :: "32 word"
proof
  assume z: "x XOR y = 0"
  have "x XOR (x XOR y) = y" by (simp add: xor.assoc [symmetric])
  then show "y = x" by (simp add: z)
next
  assume "y = x"
  then show "x XOR y = 0" by simp
qed

lemma push_iter: "push_bit n x = x \<Longrightarrow> push_bit (k * n) x = x" for x :: "32 word"
proof (induction k)
  case 0 show ?case by simp
next
  case (Suc k)
  have "push_bit (Suc k * n) x = push_bit (k * n) (push_bit n x)"
    by (simp add: push_bit_push_bit add.commute)
  with Suc show ?case by simp
qed

lemma drop_iter: "drop_bit n x = x \<Longrightarrow> drop_bit (k * n) x = x" for x :: "32 word"
proof (induction k)
  case 0 show ?case by simp
next
  case (Suc k)
  have "drop_bit (Suc k * n) x = drop_bit (k * n) (drop_bit n x)"
    by (simp add: drop_bit_drop_bit add.commute)
  with Suc show ?case by simp
qed

lemma xor_push_fixed: "x XOR push_bit n x = 0 \<Longrightarrow> 0 < n \<Longrightarrow> x = 0" for x :: "32 word"
proof -
  assume z: "x XOR push_bit n x = 0" and n: "0 < n"
  from z have "push_bit n x = x" by (simp only: xor_eq_zero_iff)
  then have "push_bit (32 * n) x = x" by (rule push_iter)
  moreover have "push_bit (32 * n) x = 0"
    using n by (intro push_bit_word_beyond) simp
  ultimately show ?thesis by simp
qed

lemma xor_drop_fixed: "x XOR drop_bit n x = 0 \<Longrightarrow> 0 < n \<Longrightarrow> x = 0" for x :: "32 word"
proof -
  assume z: "x XOR drop_bit n x = 0" and n: "0 < n"
  from z have "drop_bit n x = x" by (simp only: xor_eq_zero_iff)
  then have "drop_bit (32 * n) x = x" by (rule drop_iter)
  moreover have "drop_bit (32 * n) x = 0"
    using n by (intro drop_bit_word_beyond) simp
  ultimately show ?thesis by simp
qed

lemma xorshift32_zero_iff: "xorshift32 s = 0 \<longleftrightarrow> s = 0"
proof
  assume "xorshift32 s = 0"
  then have "(s XOR push_bit 13 s) XOR drop_bit 17 (s XOR push_bit 13 s) = 0"
    unfolding xorshift32_def Let_def by (rule xor_push_fixed) simp
  then have "s XOR push_bit 13 s = 0"
    by (rule xor_drop_fixed) simp
  then show "s = 0"
    by (rule xor_push_fixed) simp
next
  assume "s = 0"
  then show "xorshift32 s = 0" by (simp add: xorshift32_def)
qed

lemma xorshift32_zero: "xorshift32 0 = 0"
  by (simp add: xorshift32_zero_iff)

lemma draws_zero: "draws n \<lparr>state = 0\<rparr> = replicate n 0"
  by (induction n) (simp_all add: rng_next_def xorshift32_zero Let_def)

lemma draws_nonzero: "state r \<noteq> 0 \<Longrightarrow> 0 \<notin> set (draws n r)"
proof (induction n arbitrary: r)
  case 0 show ?case by simp
next
  case (Suc n)
  have nz: "xorshift32 (state r) \<noteq> 0" using Suc.prems by (simp add: xorshift32_zero_iff)
  then have "0 \<notin> set (draws n (snd (rng_next r)))"
    by (intro Suc.IH) (simp add: rng_next_def Let_def)
  with nz show ?case by (simp add: rng_next_def Let_def split_def)
qed

lemma redraw_sizeB_stuck:
  assumes ret: "redraw_sizeB a b r = Some res"
  shows "\<not> (a = 32 \<and> b = 32 \<and> state r = 0)"
proof (rule redraw_sizeB.raw_induct
    [where P = "\<lambda>a b r res. \<not> (a = 32 \<and> b = 32 \<and> state r = 0)", OF _ ret], goal_cases)
  case (1 f a b r res)
  show ?case
  proof
    assume s: "a = 32 \<and> b = 32 \<and> state r = 0"
    then have nx: "rng_next r = (0, r)"
      by (simp add: rng_next_def xorshift32_zero Let_def)
    have "to_int16 (32 + 0 mod 96) = 32" by (simp add: to_int16_def)
    with 1(2) s nx have "f 32 32 r = Some res" by simp
    from 1(1) [OF this] s show False by simp
  qed
qed

lemma generate_seed_zero: "generate (RNG_ctor 0) False = None"
proof -
  have nx: "rng_next \<lparr>state = 0\<rparr> = (0, \<lparr>state = 0\<rparr>)"
    by (simp add: rng_next_def xorshift32_zero Let_def)
  have t: "to_int16 32 = 32" by (simp add: to_int16_def)
  have "redraw_sizeB 32 32 \<lparr>state = 0\<rparr> = None"
  proof (cases "redraw_sizeB 32 32 \<lparr>state = 0\<rparr>")
    case None then show ?thesis .
  next
    case (Some res)
    from redraw_sizeB_stuck [OF this] show ?thesis by simp
  qed
  then show ?thesis
    by (simp add: generate_def RNG_ctor_def nx t Let_def)
qed

text \<open>
  Claim C4, as stated, fails: the constructor keeps the seed 0 it is given, every
  \<^verbatim>\<open>next()\<close> then returns 0, and \<^verbatim>\<open>MushroomTrial::generate\<close> on such a generator never
  returns.
\<close>

theorem rng_seed_zero_counterexample:
  "state (RNG_ctor 0) = 0 \<and>
   draws 8 (RNG_ctor 0) = [0, 0, 0, 0, 0, 0, 0, 0] \<and>
   generate (RNG_ctor 0) False = None"
proof -
  have "draws 8 (RNG_ctor 0) = replicate 8 0"
    unfolding RNG_ctor_def by (rule draws_zero)
  also have "replicate 8 (0 :: 32 word) = [0, 0, 0, 0, 0, 0, 0, 0]"
    by (simp add: numeral_eq_Suc)
  finally show ?thesis
    by (simp add: generate_seed_zero) (simp add: RNG_ctor_def)
qed

text \<open>
  Claim C4, amended. A generator constructed with seed 0 keeps state 0 and returns 0 from
  every \<^verbatim>\<open>next()\<close>; the default 12345 is the seed only when none is passed; for every
  non-zero seed no \<^verbatim>\<open>next()\<close> ever returns 0.
\<close>

theorem rng_seed_zero_and_nonzero:
  "state (RNG_ctor 0) = 0 \<and>
   draws n (RNG_ctor 0) = replicate n 0 \<and>
   state RNG_default = 12345 \<and>
   (seed \<noteq> 0 \<longrightarrow> 0 \<notin> set (draws n (RNG_ctor seed)))"
proof -
  have "seed \<noteq> 0 \<longrightarrow> 0 \<notin> set (draws n (RNG_ctor seed))"
    using draws_nonzero [of "RNG_ctor seed" n] by (simp add: RNG_ctor_def)
  moreover have "draws n (RNG_ctor 0) = replicate n 0"
    unfolding RNG_ctor_def by (rule draws_zero)
  ultimately show ?thesis
    by (simp add: RNG_default_def RNG_ctor_def)
qed

theorem rng_seed_zero_and_nonzero_witness:
  "(42 :: 32 word) \<noteq> 0 \<and> 0 \<notin> set (draws 3 (RNG_ctor 42)) \<and>
   draws 3 (RNG_ctor 0) = [0, 0, 0]"
  using rng_seed_zero_and_nonzero [of 3 42] by (simp add: numeral_3_eq_3)

subsection \<open>RNG: the values drawn are fixed by the seed\<close>












subsection \<open>FrameWriter: unescaping a frame\<close>

lemma hexval_hexdigit_all: "list_all (\<lambda>d. hexval (hexdigit d) = d) [0..<16]"
  by code_simp

lemma hexval_hexdigit: "d < 16 \<Longrightarrow> hexval (hexdigit d) = d"
  using hexval_hexdigit_all by (simp add: list_all_iff)

lemma hexdigit_mod: "hexdigit d = hexdigit (d mod 16)"
  by (simp add: hexdigit_def)

lemma hexval_hexdigit_mod: "hexval (hexdigit d) = d mod 16"
  using hexval_hexdigit [of "d mod 16"] hexdigit_mod [of d] by simp

lemma unescape_plain: "c \<noteq> BSLASH \<Longrightarrow> unescapeJson (c # rest) = c # unescapeJson rest"
  by (cases rest) simp_all

lemma unescape_u_digits:
  "unescapeJson (BSLASH # CHR ''u'' # h1 # h2 # h3 # h4 # rest) =
     char_of (hexval h1 * 4096 + hexval h2 * 256 + hexval h3 * 16 + hexval h4) # unescapeJson rest"
  by simp

lemma hex4_value:
  assumes "v < 256"
  shows "hexval (hexdigit (v div 4096)) * 4096 + hexval (hexdigit (v div 256)) * 256 +
         hexval (hexdigit (v div 16)) * 16 + hexval (hexdigit v) = v"
proof -
  have d1: "v div 4096 = 0" using assms by (intro div_less) simp
  have d2: "v div 256 = 0" using assms by (intro div_less) simp
  have "v < 16 * 16" using assms by simp
  then have "v div 16 < 16" by (rule less_mult_imp_div_less)
  then have m3: "v div 16 mod 16 = v div 16" by (rule mod_less)
  have h0: "hexval (hexdigit 0) = 0" using hexval_hexdigit [of 0] by simp
  have "hexval (hexdigit (v div 4096)) * 4096 + hexval (hexdigit (v div 256)) * 256 +
         hexval (hexdigit (v div 16)) * 16 + hexval (hexdigit v) =
        v div 16 * 16 + v mod 16"
    unfolding d1 d2 h0 by (simp only: hexval_hexdigit_mod m3 mult_zero_left add_0_left)
  also have "\<dots> = v" by (rule div_mult_mod_eq)
  finally show ?thesis .
qed

lemma unescape_u:
  assumes "v < 256"
  shows "unescapeJson (BSLASH # CHR ''u'' # hex4 v @ rest) = char_of v # unescapeJson rest"
proof -
  have "unescapeJson (BSLASH # CHR ''u'' # hex4 v @ rest) =
      char_of (hexval (hexdigit (v div 4096)) * 4096 + hexval (hexdigit (v div 256)) * 256 +
         hexval (hexdigit (v div 16)) * 16 + hexval (hexdigit v)) # unescapeJson rest"
    unfolding hex4_def append_Cons append_Nil by (rule unescape_u_digits)
  then show ?thesis by (simp only: hex4_value [OF assms])
qed

lemma char_value_ascii: "ascii c \<Longrightarrow> char_value sg c = int (of_char c)"
  by (simp add: char_value_def ascii_def)

lemma char_code_neq: "(of_char c :: nat) \<noteq> of_char d \<Longrightarrow> c \<noteq> d"
  by auto

lemma unescape_escape_char:
  assumes "ascii c"
  shows "unescapeJson (escape_char sg c @ rest) = echo c @ unescapeJson rest"
proof -
  have cv: "char_value sg c = int (of_char c)" using assms by (rule char_value_ascii)
  have special: "c = DQUOTE \<or> c = BSLASH \<or> c = LF \<or> c = CR \<or> c = TAB \<Longrightarrow> ?thesis"
    by (auto simp: escape_char_def echo_def)
  have other: ?thesis
    if ne: "c \<noteq> DQUOTE" "c \<noteq> BSLASH" "c \<noteq> LF" "c \<noteq> CR" "c \<noteq> TAB"
  proof (cases "(of_char c :: nat) < 32")
    case True
    then have n7: "c \<noteq> CHR 0x7F" by (intro char_code_neq) simp
    have e: "escape_char sg c = BSLASH # CHR ''u'' # hex4 (of_char c)"
      using ne True by (simp add: escape_char_def cv)
    have "(of_char c :: nat) < 256" using True by simp
    then have "unescapeJson (BSLASH # CHR ''u'' # hex4 (of_char c) @ rest) =
        char_of (of_char c :: nat) # unescapeJson rest"
      by (rule unescape_u)
    then show ?thesis using ne n7 by (simp add: e echo_def)
  next
    case ge: False
    show ?thesis
    proof (cases "(of_char c :: nat) < 127")
      case True
      then have n7: "c \<noteq> CHR 0x7F" by (intro char_code_neq) simp
      have e: "escape_char sg c = [c]"
        using ne ge True by (simp add: escape_char_def cv)
      show ?thesis using ne n7 by (simp add: e echo_def unescape_plain)
    next
      case False
      with assms have "(of_char c :: nat) = 127" by (simp add: ascii_def)
      then have "(of_char c :: nat) = of_char (CHR 0x7F)" by simp
      then have c: "c = CHR 0x7F" by (simp only: of_char_eq_iff)
      show ?thesis unfolding c by (simp add: escape_char_def echo_def char_value_def)
    qed
  qed
  from special other show ?thesis by blast
qed

lemma unescape_escape_append:
  "list_all ascii s \<Longrightarrow>
   unescapeJson (escapeForJson sg s @ rest) = concat (map echo s) @ unescapeJson rest"
  by (induction s) (simp_all add: escapeForJson_def unescape_escape_char)

lemma unescape_escape:
  "list_all ascii s \<Longrightarrow> unescapeJson (escapeForJson sg s) = concat (map echo s)"
  using unescape_escape_append [of s sg "[]"] by simp

lemma printable_ascii: "printable c \<Longrightarrow> ascii c"
  by (simp add: printable_def ascii_def)

lemma echo_printable: "printable c \<Longrightarrow> echo c = [c]"
proof -
  assume p: "printable c"
  then have "c \<noteq> LF" "c \<noteq> CR" "c \<noteq> CHR 0x7F"
    by (auto simp: printable_def)
  then show ?thesis by (simp add: echo_def)
qed

lemma echo_printable_list: "list_all printable l \<Longrightarrow> concat (map echo l) = l"
  by (induction l) (simp_all add: echo_printable)

lemma echo_rows:
  "concat (map echo (concat (map (\<lambda>l. l @ [LF]) ls))) =
   concat (map (\<lambda>l. concat (map echo l) @ [CR, LF]) ls)"
  by (induction ls) (simp_all add: echo_def)

lemma echo_printable_rows:
  "list_all (list_all printable) ls \<Longrightarrow>
   map (\<lambda>l. concat (map echo l) @ [CR, LF]) ls = map (\<lambda>l. l @ [CR, LF]) ls"
  by (induction ls) (simp_all add: echo_printable_list)

lemma ascii_rows:
  "list_all (list_all ascii) ls \<Longrightarrow> list_all ascii (concat (map (\<lambda>l. l @ [LF]) ls))"
proof (induction ls)
  case Nil show ?case by simp
next
  case (Cons l ls)
  have "ascii LF" by (simp add: ascii_def)
  with Cons show ?case by simp
qed

lemma printable_rows_ascii:
  "list_all (list_all printable) ls \<Longrightarrow> list_all (list_all ascii) ls"
  by (auto simp: list_all_iff printable_ascii)

lemma prefix_facts:
  "list_all ascii ansi_INIT" "list_all ascii ansi_CLEAR"
  "concat (map echo ansi_INIT) = ansi_INIT" "concat (map echo ansi_CLEAR) = ansi_CLEAR"
  by (simp_all add: ansi_INIT_def ansi_CLEAR_def ascii_def echo_def)

lemma content_rows:
  "fst (buildFrameContent w buf) =
     (if firstFrame w then ansi_INIT else ansi_CLEAR) @ concat (map (\<lambda>l. l @ [LF]) (grid_rows buf))"
  by (simp add: buildFrameContent_def grid_rows_def Let_def comp_def)

lemma frame_unescape_ascii_rows:
  assumes rows: "list_all (list_all ascii) (grid_rows buf)"
  shows "unescapeJson (fst (outputFrame sg w buf)) =
     (if firstFrame w then ansi_INIT else ansi_CLEAR) @
       concat (map (\<lambda>l. concat (map echo l) @ [CR, LF]) (grid_rows buf))"
proof -
  let ?p = "if firstFrame w then ansi_INIT else ansi_CLEAR"
  let ?rows = "concat (map (\<lambda>l. l @ [LF]) (grid_rows buf))"
  have a: "list_all ascii (?p @ ?rows)"
    using ascii_rows [OF rows] by (simp add: prefix_facts)
  have "fst (outputFrame sg w buf) = escapeForJson sg (?p @ ?rows)"
    by (simp add: outputFrame_def outputRawFrame_def split_def content_rows)
  then have "unescapeJson (fst (outputFrame sg w buf)) = concat (map echo (?p @ ?rows))"
    using unescape_escape [OF a] by simp
  also have "\<dots> = ?p @ concat (map (\<lambda>l. concat (map echo l) @ [CR, LF]) (grid_rows buf))"
    by (simp add: prefix_facts echo_rows)
  finally show ?thesis .
qed

lemma frame_unescape:
  assumes "printable_grid buf"
  shows "unescapeJson (fst (outputFrame sg w buf)) =
     (if firstFrame w then ansi_INIT else ansi_CLEAR) @
       concat (map (\<lambda>l. l @ [CR, LF]) (grid_rows buf))"
proof -
  have rows: "list_all (list_all printable) (grid_rows buf)"
    using assms by (simp add: printable_grid_def)
  show ?thesis
    using frame_unescape_ascii_rows [OF printable_rows_ascii [OF rows], of sg w]
    by (simp only: echo_printable_rows [OF rows])
qed

lemma printable_grid_clear: "printable_grid clear"
  by code_simp

lemma first_row_clear: "hd (join_lines (grid_rows clear)) = CHR '' ''"
  by code_simp

text \<open>
  Claim C5, as stated, fails: already for the cleared grid the unescaped text of the first
  frame is not the rows joined by newlines, since it starts with the control sequence
  \<^verbatim>\<open>ansi::INIT\<close>. And not every grid can come back: a carriage return and the byte 0x7F
  leave no trace in the escaped text.
\<close>

theorem frame_roundtrip_counterexample:
  "unescapeJson (fst (outputFrame True FrameWriter_init clear)) \<noteq> join_lines (grid_rows clear) \<and>
   unescapeJson (fst (outputFrame False FrameWriter_init clear)) \<noteq> join_lines (grid_rows clear) \<and>
   escapeForJson True [CHR ''a'', CR, CHR 0x7F, CHR ''b''] = ''ab'' \<and>
   escapeForJson False [CHR ''a'', CR, CHR 0x7F, CHR ''b''] = ''ab''"
proof -
  have h: "hd (unescapeJson (fst (outputFrame sg FrameWriter_init clear))) = ESC" for sg
    by (simp add: frame_unescape [OF printable_grid_clear] FrameWriter_init_def ansi_INIT_def)
  have ne: "unescapeJson (fst (outputFrame sg FrameWriter_init clear)) \<noteq> join_lines (grid_rows clear)" for sg
  proof
    assume "unescapeJson (fst (outputFrame sg FrameWriter_init clear)) = join_lines (grid_rows clear)"
    then have "hd (unescapeJson (fst (outputFrame sg FrameWriter_init clear))) = CHR '' ''"
      by (simp only: first_row_clear)
    with h [of sg] show False by simp
  qed
  have dropped: "escapeForJson sg [CHR ''a'', CR, CHR 0x7F, CHR ''b''] = ''ab''" for sg
    by (simp add: escapeForJson_def escape_char_def char_value_def)
  from ne [of True] ne [of False] dropped [of True] dropped [of False] show ?thesis by blast
qed

text \<open>
  Claim C5, amended. For every grid whose rows hold 7-bit ASCII only, unescaping the escaped
  text of a frame gives the control sequence (\<^verbatim>\<open>ansi::INIT\<close> on the writer's first frame,
  \<^verbatim>\<open>ansi::CLEAR\<close> on every later one) followed by the 24 rows, each followed by carriage
  return and newline, where inside a row a newline comes back as carriage return and newline
  and carriage returns and the byte 0x7F are missing. When the rows hold printable ASCII only
  each row comes back as it is. The writer is past its first frame afterwards.
\<close>

theorem frame_unescaped_text:
  "list_all (list_all ascii) (grid_rows buf) \<Longrightarrow>
   unescapeJson (fst (outputFrame signed_char w buf)) =
     (if firstFrame w then ansi_INIT else ansi_CLEAR) @
       concat (map (\<lambda>l. concat (map echo l) @ [CR, LF]) (grid_rows buf)) \<and>
   (printable_grid buf \<longrightarrow>
      unescapeJson (fst (outputFrame signed_char w buf)) =
        (if firstFrame w then ansi_INIT else ansi_CLEAR) @
          concat (map (\<lambda>l. l @ [CR, LF]) (grid_rows buf))) \<and>
   \<not> firstFrame (snd (outputFrame signed_char w buf))"
proof -
  assume rows: "list_all (list_all ascii) (grid_rows buf)"
  have a: "unescapeJson (fst (outputFrame signed_char w buf)) =
     (if firstFrame w then ansi_INIT else ansi_CLEAR) @
       concat (map (\<lambda>l. concat (map echo l) @ [CR, LF]) (grid_rows buf))"
    using rows by (rule frame_unescape_ascii_rows)
  have b: "printable_grid buf \<longrightarrow>
      unescapeJson (fst (outputFrame signed_char w buf)) =
        (if firstFrame w then ansi_INIT else ansi_CLEAR) @
          concat (map (\<lambda>l. l @ [CR, LF]) (grid_rows buf))"
    by (simp add: frame_unescape)
  have c: "\<not> firstFrame (snd (outputFrame signed_char w buf))"
    by (simp add: outputFrame_def outputRawFrame_def buildFrameContent_def Let_def)
  from a b c show ?thesis by blast
qed

theorem frame_unescaped_text_witness:
  "list_all (list_all ascii) (grid_rows clear) \<and>
   printable_grid clear \<and>
   unescapeJson (fst (outputFrame True FrameWriter_init clear)) =
     ansi_INIT @ concat (map (\<lambda>l. l @ [CR, LF]) (grid_rows clear)) \<and>
   unescapeJson (fst (outputFrame True (snd (outputFrame True FrameWriter_init clear)) clear)) =
     ansi_CLEAR @ concat (map (\<lambda>l. l @ [CR, LF]) (grid_rows clear))"
proof -
  have rows: "list_all (list_all ascii) (grid_rows clear)"
    using printable_grid_clear by (simp add: printable_grid_def printable_rows_ascii)
  note pg = printable_grid_clear
  let ?w1 = "snd (outputFrame True FrameWriter_init clear)"
  from frame_unescaped_text [OF rows, of True FrameWriter_init] pg
  have a: "unescapeJson (fst (outputFrame True FrameWriter_init clear)) =
      (if firstFrame FrameWriter_init then ansi_INIT else ansi_CLEAR) @
        concat (map (\<lambda>l. l @ [CR, LF]) (grid_rows clear))"
    and c: "\<not> firstFrame ?w1"
    by blast+
  from frame_unescaped_text [OF rows, of True ?w1] pg
  have b: "unescapeJson (fst (outputFrame True ?w1 clear)) =
      (if firstFrame ?w1 then ansi_INIT else ansi_CLEAR) @
        concat (map (\<lambda>l. l @ [CR, LF]) (grid_rows clear))"
    by blast
  have f: "firstFrame FrameWriter_init" by (simp add: FrameWriter_init_def)
  from rows pg a b c f show ?thesis by simp
qed

end
